theory Spec2Isabelle
  imports Complex_Main
begin

section \<open>Array values\<close>

text \<open>
  The arrays of \<^verbatim>\<open>declooptor/utils.py\<close> hold double-precision floats. The model keeps
  the special values that the code tests for or produces on purpose (not-a-number and
  the two infinities) and computes on finite values in exact real arithmetic: rounding,
  overflow and the sign of zero are outside the model.
\<close>

datatype fval = Num real | PosInf | NegInf | NaN

fun isnan :: "fval \<Rightarrow> bool" where
  "isnan NaN = True"
| "isnan _ = False"

fun fneg :: "fval \<Rightarrow> fval" where
  "fneg (Num a) = Num (- a)"
| "fneg PosInf = NegInf"
| "fneg NegInf = PosInf"
| "fneg NaN = NaN"

fun fadd :: "fval \<Rightarrow> fval \<Rightarrow> fval" where
  "fadd (Num a) (Num b) = Num (a + b)"
| "fadd NaN _ = NaN"
| "fadd _ NaN = NaN"
| "fadd PosInf NegInf = NaN"
| "fadd NegInf PosInf = NaN"
| "fadd PosInf _ = PosInf"
| "fadd _ PosInf = PosInf"
| "fadd NegInf _ = NegInf"
| "fadd _ NegInf = NegInf"

definition fsub :: "fval \<Rightarrow> fval \<Rightarrow> fval" where
  "fsub a b = fadd a (fneg b)"

text \<open>The sign of an infinite product or quotient: \<open>s\<close> says whether it is positive.\<close>

definition inf_of :: "bool \<Rightarrow> fval" where
  "inf_of s = (if s then PosInf else NegInf)"

fun fmul :: "fval \<Rightarrow> fval \<Rightarrow> fval" where
  "fmul (Num a) (Num b) = Num (a * b)"
| "fmul NaN _ = NaN"
| "fmul _ NaN = NaN"
| "fmul PosInf (Num b) = (if b = 0 then NaN else inf_of (0 < b))"
| "fmul NegInf (Num b) = (if b = 0 then NaN else inf_of (b < 0))"
| "fmul (Num a) PosInf = (if a = 0 then NaN else inf_of (0 < a))"
| "fmul (Num a) NegInf = (if a = 0 then NaN else inf_of (a < 0))"
| "fmul PosInf PosInf = PosInf"
| "fmul NegInf NegInf = PosInf"
| "fmul PosInf NegInf = NegInf"
| "fmul NegInf PosInf = NegInf"

text \<open>
  numpy's true division: \<open>0 / 0\<close> is not-a-number and \<open>x / 0\<close> is an infinity (a
  warning, never an exception).
\<close>

fun fdiv :: "fval \<Rightarrow> fval \<Rightarrow> fval" where
  "fdiv (Num a) (Num b) =
     (if b = 0 then (if a = 0 then NaN else inf_of (0 < a)) else Num (a / b))"
| "fdiv NaN _ = NaN"
| "fdiv _ NaN = NaN"
| "fdiv (Num a) PosInf = Num 0"
| "fdiv (Num a) NegInf = Num 0"
| "fdiv PosInf (Num b) = inf_of (0 \<le> b)"
| "fdiv NegInf (Num b) = inf_of (b < 0)"
| "fdiv PosInf PosInf = NaN"
| "fdiv PosInf NegInf = NaN"
| "fdiv NegInf PosInf = NaN"
| "fdiv NegInf NegInf = NaN"

text \<open>Comparisons: every comparison with not-a-number is false.\<close>

fun flt :: "fval \<Rightarrow> fval \<Rightarrow> bool" where
  "flt (Num a) (Num b) = (a < b)"
| "flt NaN _ = False"
| "flt _ NaN = False"
| "flt NegInf NegInf = False"
| "flt NegInf _ = True"
| "flt PosInf _ = False"
| "flt _ PosInf = True"
| "flt _ NegInf = False"

fun fle :: "fval \<Rightarrow> fval \<Rightarrow> bool" where
  "fle (Num a) (Num b) = (a \<le> b)"
| "fle NaN _ = False"
| "fle _ NaN = False"
| "fle NegInf _ = True"
| "fle _ PosInf = True"
| "fle PosInf _ = False"
| "fle _ NegInf = False"

definition fgt :: "fval \<Rightarrow> fval \<Rightarrow> bool" where
  "fgt a b = flt b a"

fun fsqrt :: "fval \<Rightarrow> fval" where
  "fsqrt (Num a) = (if a < 0 then NaN else Num (sqrt a))"
| "fsqrt PosInf = PosInf"
| "fsqrt NegInf = NaN"
| "fsqrt NaN = NaN"

section \<open>numpy reductions\<close>

text \<open>\<^verbatim>\<open>np.sum\<close> of a one-dimensional array; the sum of no element is \<open>0.0\<close>.\<close>

definition np_sum :: "fval list \<Rightarrow> fval" where
  "np_sum xs = foldl fadd (Num 0) xs"

text \<open>\<^verbatim>\<open>np.mean\<close>: the sum over the number of elements (not-a-number on no element).\<close>

definition np_mean :: "fval list \<Rightarrow> fval" where
  "np_mean xs = fdiv (np_sum xs) (Num (real (length xs)))"

text \<open>\<^verbatim>\<open>np.std\<close>: the population standard deviation, \<open>sqrt(mean(|x - mean(x)|^2))\<close>.\<close>

definition np_std :: "fval list \<Rightarrow> fval" where
  "np_std xs =
     (let m = np_mean xs
      in fsqrt (np_mean (map (\<lambda>x. let d = fsub x m in fmul d d) xs)))"

text \<open>
  \<^verbatim>\<open>np.median\<close>: not-a-number when the data is empty or holds one, otherwise the middle
  element of the sorted data, or the mean of the two middle elements.
\<close>

fun fins :: "fval \<Rightarrow> fval list \<Rightarrow> fval list" where
  "fins x [] = [x]"
| "fins x (y # ys) = (if fle x y then x # y # ys else y # fins x ys)"

definition fsort :: "fval list \<Rightarrow> fval list" where
  "fsort xs = foldr fins xs []"

definition np_median :: "fval list \<Rightarrow> fval" where
  "np_median xs =
     (if xs = [] \<or> (\<exists>x \<in> set xs. isnan x) then NaN
      else let s = fsort xs; n = length xs
           in if odd n then s ! (n div 2)
              else np_mean [s ! (n div 2 - 1), s ! (n div 2)])"

section \<open>Genomic distance law\<close>

text \<open>
  A two-dimensional array is the list of its rows. \<^verbatim>\<open>np.diag(matrix, -d)\<close> is the
  \<open>d\<close>-th diagonal below the main one: the entries \<open>(d, 0), (d + 1, 1), ...\<close> as far as
  rows and columns go.
\<close>

type_synonym matrix = "fval list list"

definition square :: "nat \<Rightarrow> matrix \<Rightarrow> bool" where
  "square n A \<longleftrightarrow> length A = n \<and> (\<forall>r \<in> set A. length r = n)"

definition ncols :: "matrix \<Rightarrow> nat" where
  "ncols A = (case A of [] \<Rightarrow> 0 | r # _ \<Rightarrow> length r)"

definition np_diag_lower :: "matrix \<Rightarrow> nat \<Rightarrow> fval list" where
  "np_diag_lower A d = map (\<lambda>i. A ! (i + d) ! i) [0..<min (length A - d) (ncols A)]"

definition distance_law :: "matrix \<Rightarrow> fval list" where
  "distance_law A =
     (let n = length A
      in foldl (\<lambda>dist diag. dist[diag := np_mean (np_diag_lower A diag)])
           (replicate n (Num 0)) [0..<n])"

section \<open>Row and column normalisation\<close>

text \<open>
  Index assignment \<^verbatim>\<open>A[i, j] = v\<close>, and its array forms \<^verbatim>\<open>A[rows, i] = values\<close> and
  \<^verbatim>\<open>A[i, cols] = values\<close>: the right-hand side is computed first, then stored entry by
  entry. The functions below are used on square arrays, where every index they reach
  is in range.
\<close>

definition set2 :: "'a list list \<Rightarrow> nat \<Rightarrow> nat \<Rightarrow> 'a \<Rightarrow> 'a list list" where
  "set2 A i j v = A[i := (A ! i)[j := v]]"

definition assign_col :: "matrix \<Rightarrow> nat list \<Rightarrow> nat \<Rightarrow> fval list \<Rightarrow> matrix" where
  "assign_col A rs i vs = foldl (\<lambda>B (r, v). set2 B r i v) A (zip rs vs)"

definition assign_row :: "matrix \<Rightarrow> nat \<Rightarrow> nat list \<Rightarrow> fval list \<Rightarrow> matrix" where
  "assign_row A i cs vs = foldl (\<lambda>B (c, v). set2 B i c v) A (zip cs vs)"

text \<open>\<^verbatim>\<open>A[np.isnan(A)] = 0.0\<close>\<close>

definition nan_to_zero :: "matrix \<Rightarrow> matrix" where
  "nan_to_zero A = map (map (\<lambda>x. if isnan x then Num 0 else x)) A"

text \<open>The first loop of \<^verbatim>\<open>scn_func\<close>: \<open>keep[i]\<close> is 1 when row \<open>i\<close> sums above the threshold.\<close>

definition scn_keep :: "matrix \<Rightarrow> fval \<Rightarrow> fval list" where
  "scn_keep A threshold =
     foldl (\<lambda>keep i. if fgt (np_sum (A ! i)) threshold then keep[i := Num 1]
                      else keep[i := Num 0])
       (replicate (length A) (Num 0)) [0..<length A]"

text \<open>The body of the loop over columns, and of the loop over rows.\<close>

definition scn_col :: "nat list \<Rightarrow> nat list \<Rightarrow> matrix \<Rightarrow> nat \<Rightarrow> matrix" where
  "scn_col indices1 indices2 A i =
     (let vals = map (\<lambda>r. A ! r ! i) indices1;
          A1 = assign_col A indices1 i (map (\<lambda>v. fdiv v (np_sum vals)) vals)
      in assign_col A1 indices2 i (replicate (length indices2) (Num 0)))"

definition scn_row :: "nat list \<Rightarrow> nat list \<Rightarrow> matrix \<Rightarrow> nat \<Rightarrow> matrix" where
  "scn_row indices1 indices2 A i =
     (let vals = map (\<lambda>c. A ! i ! c) indices1;
          A1 = assign_row A i indices1 (map (\<lambda>v. fdiv v (np_sum vals)) vals)
      in assign_row A1 i indices2 (replicate (length indices2) (Num 0)))"

definition scn_iteration :: "nat list \<Rightarrow> nat list \<Rightarrow> matrix \<Rightarrow> matrix" where
  "scn_iteration indices1 indices2 A =
     (let n1 = length A;
          A1 = nan_to_zero (foldl (scn_col indices1 indices2) A [0..<n1])
      in nan_to_zero (foldl (scn_row indices1 indices2) A1 [0..<n1]))"

definition n_iterations :: nat where
  "n_iterations = 10"

definition scn_func :: "matrix \<Rightarrow> fval \<Rightarrow> matrix" where
  "scn_func A threshold =
     (let n1 = length A;
          keep = scn_keep A threshold;
          indices1 = filter (\<lambda>i. fgt (keep ! i) (Num 0)) [0..<n1];
          indices2 = filter (\<lambda>i. fle (keep ! i) (Num 0)) [0..<n1]
      in foldl (\<lambda>B _. scn_iteration indices1 indices2 B) A [0..<n_iterations])"

section \<open>Speckle filter\<close>

text \<open>
  The first pass of \<^verbatim>\<open>despeckles\<close> fills the dictionary \<^verbatim>\<open>dist\<close> (\<open>dists\<close> below): for each distance
  \<open>nw\<close> the values \<open>A[j, j + nw]\<close>.
\<close>

definition despeckles_group :: "matrix \<Rightarrow> nat \<Rightarrow> fval list" where
  "despeckles_group A nw =
     foldl (\<lambda>group j. let lp = j + nw in if lp < length A then group @ [A ! j ! lp] else group)
       [] [0..<length A]"

definition despeckles_dist :: "matrix \<Rightarrow> (nat \<rightharpoonup> fval list)" where
  "despeckles_dist A =
     foldl (\<lambda>dist nw. dist(nw \<mapsto> despeckles_group A nw)) Map.empty [0..<length A]"

text \<open>
  The second pass works on the array, the counter and the list of outliers. Its body,
  for one distance \<open>nw\<close> and one position \<open>j\<close>, looks at \<open>(j, j + nw)\<close> and then at
  \<open>(j, j - nw)\<close>, each time reading \<^verbatim>\<open>dist[nw]\<close>.
\<close>

type_synonym speckle_state = "matrix \<times> nat \<times> (nat \<times> nat) list"

definition clip_at :: "fval list \<Rightarrow> fval \<Rightarrow> nat \<Rightarrow> nat \<Rightarrow> speckle_state \<Rightarrow> speckle_state" where
  "clip_at d th2 j c = (\<lambda>(A, n_speckles, outlier).
     if fgt (A ! j ! c) (fadd (np_median d) (fmul th2 (np_std d)))
     then (set2 A j c (Num 0), n_speckles + 1, outlier @ [(j, c)])
     else (A, n_speckles, outlier))"

definition despeckles_step ::
  "(nat \<rightharpoonup> fval list) \<Rightarrow> fval \<Rightarrow> nat \<Rightarrow> nat \<Rightarrow> speckle_state \<Rightarrow> nat \<Rightarrow> speckle_state" where
  "despeckles_step dists th2 n1 nw s j =
     (let lp = j + nw;
          kp = int j - int nw;
          s1 = (if lp < n1 then clip_at (the (dists nw)) th2 j lp s else s)
      in if kp \<ge> 0 then clip_at (the (dists nw)) th2 j (nat kp) s1 else s1)"

definition despeckles_clip ::
  "(nat \<rightharpoonup> fval list) \<Rightarrow> fval \<Rightarrow> nat \<Rightarrow> speckle_state \<Rightarrow> speckle_state" where
  "despeckles_clip dists th2 n1 s =
     foldl (\<lambda>s nw. foldl (despeckles_step dists th2 n1 nw) s [0..<n1]) s [0..<n1]"

definition despeckles ::
  "matrix \<Rightarrow> fval \<Rightarrow> (nat \<rightharpoonup> fval list) \<times> matrix \<times> nat \<times> (nat \<times> nat) list" where
  "despeckles A th2 =
     (let n1 = length A;
          dists = despeckles_dist A
      in case despeckles_clip dists th2 n1 (A, 0, []) of
           (A', n_speckles, outlier) \<Rightarrow> (dists, A', n_speckles, outlier))"

section \<open>Detrending\<close>

datatype py_error = ValueError string | IndexError

text \<open>\<^verbatim>\<open>matrix.sum(axis=0)\<close>: the sum of each column.\<close>

definition col_sums :: "matrix \<Rightarrow> fval list" where
  "col_sums A = map (\<lambda>j. np_sum (map (\<lambda>r. r ! j) A)) [0..<ncols A]"

definition threshold_vector :: "matrix \<Rightarrow> fval" where
  "threshold_vector A =
     fsub (np_median (col_sums A)) (fmul (Num 2) (np_std (col_sums A)))"

text \<open>\<^verbatim>\<open>np.where(matrix.sum(axis=0) <= threshold_vector)[0]\<close>\<close>

definition poor_indices :: "matrix \<Rightarrow> nat list" where
  "poor_indices A =
     filter (\<lambda>j. fle (col_sums A ! j) (threshold_vector A)) [0..<length (col_sums A)]"

text \<open>\<^verbatim>\<open>abs(j - i)\<close> on Python integers.\<close>

definition abs_diff :: "nat \<Rightarrow> nat \<Rightarrow> nat" where
  "abs_diff j i = nat \<bar>int j - int i\<bar>"

definition distance_law_matrix :: "nat \<Rightarrow> fval list \<Rightarrow> matrix" where
  "distance_law_matrix n y_savgol =
     map (\<lambda>i. map (\<lambda>j. y_savgol ! abs_diff j i) [0..<n]) [0..<n]"

text \<open>Elementwise \<^verbatim>\<open>matscn / distance_law_matrix\<close> of two arrays of one shape.\<close>

definition div2 :: "matrix \<Rightarrow> matrix \<Rightarrow> matrix" where
  "div2 A B = map (\<lambda>(r, q). map (\<lambda>(x, y). fdiv x y) (zip r q)) (zip A B)"

text \<open>\<^verbatim>\<open>detrended[np.isnan(detrended)] = 1.0\<close> and \<^verbatim>\<open>detrended[detrended < 0] = 1.0\<close>\<close>

definition nan_to_one :: "matrix \<Rightarrow> matrix" where
  "nan_to_one A = map (map (\<lambda>x. if isnan x then Num 1 else x)) A"

definition neg_to_one :: "matrix \<Rightarrow> matrix" where
  "neg_to_one A = map (map (\<lambda>x. if flt x (Num 0) then Num 1 else x)) A"

text \<open>
  \<^verbatim>\<open>detrended[poor_indices[0], :] = np.ones(...)\<close> and
  \<^verbatim>\<open>detrended[:, poor_indices[0]] = np.ones(...)\<close>
\<close>

definition refill_rows :: "nat \<Rightarrow> nat list \<Rightarrow> matrix \<Rightarrow> matrix" where
  "refill_rows n poor D =
     foldl (\<lambda>D b. assign_row D b [0..<n] (replicate n (Num 1))) D poor"

definition refill_cols :: "nat \<Rightarrow> nat list \<Rightarrow> matrix \<Rightarrow> matrix" where
  "refill_cols n poor D =
     foldl (\<lambda>D b. assign_col D [0..<n] b (replicate n (Num 1))) D poor"

text \<open>
  The Savitzky-Golay filter \<^verbatim>\<open>savgol_filter(y, window_length=17, polyorder=5)\<close> is scipy's.
  In its default mode it refuses a vector shorter than the window with a ValueError;
  otherwise it returns the smoothed vector, which has the length of \<open>y\<close>. What the
  smoothing computes is the parameter \<open>smooth\<close>.
\<close>

definition window_length :: nat where
  "window_length = 17"

definition savgol_filter :: "(fval list \<Rightarrow> fval list) \<Rightarrow> fval list \<Rightarrow> py_error + fval list" where
  "savgol_filter smooth y =
     (if window_length > length y
      then Inl (ValueError
        ''If mode is 'interp', window_length must be less than or equal to the size of x.'')
      else Inr (smooth y))"

text \<open>
  \<^verbatim>\<open>detrend\<close>. The threshold and the poor bins are computed from the input before
  \<^verbatim>\<open>scn_func\<close> and \<^verbatim>\<open>despeckles\<close> overwrite it. Reading \<^verbatim>\<open>y_savgol[abs(j - i)]\<close> reaches every
  index below \<open>n\<close>, and raises IndexError when the vector is shorter.
\<close>

definition detrend ::
  "(fval list \<Rightarrow> fval list) \<Rightarrow> matrix \<Rightarrow> py_error + (matrix \<times> fval)" where
  "detrend smooth A =
     (let thr = threshold_vector A;
          poor = poor_indices A;
          matscn = scn_func A thr;
          matscn = fst (snd (despeckles matscn (Num 10)));
          y = map (\<lambda>x. if isnan x then Num 0 else x) (distance_law matscn)
      in case savgol_filter smooth y of
           Inl e \<Rightarrow> Inl e
         | Inr y_savgol \<Rightarrow>
             (let n = length A
              in if length y_savgol < n then Inl IndexError
                 else let detrended = div2 matscn (distance_law_matrix n y_savgol);
                          detrended = neg_to_one (nan_to_one detrended);
                          detrended = refill_cols n poor (refill_rows n poor detrended)
                      in Inr (detrended, thr)))"

section \<open>Sliding cross-correlation\<close>

text \<open>
  Signal and kernel may have any shape, also with no row or no column, so these arrays
  carry their shape. In a well-formed array the rows are as the shape says.
\<close>

record ndarray =
  shape :: "nat \<times> nat"
  data :: "fval list list"

definition wf_ndarray :: "ndarray \<Rightarrow> bool" where
  "wf_ndarray a \<longleftrightarrow>
     length (data a) = fst (shape a) \<and> (\<forall>r \<in> set (data a). length r = snd (shape a))"

definition full :: "nat \<times> nat \<Rightarrow> fval \<Rightarrow> ndarray" where
  "full sh v = \<lparr>shape = sh, data = replicate (fst sh) (replicate (snd sh) v)\<rparr>"

text \<open>
  The bounds of a Python slice \<^verbatim>\<open>a:b\<close> on an axis of length \<open>n\<close>: a negative bound
  counts from the end, and both are clamped to the axis. The slice selects the indices
  from the first bound up to, not including, the second.
\<close>

definition slice_bound :: "nat \<Rightarrow> int \<Rightarrow> nat" where
  "slice_bound n k = (if k < 0 then nat (max (k + int n) 0) else nat (min k (int n)))"

definition py_slice :: "nat \<Rightarrow> int \<Rightarrow> int \<Rightarrow> nat \<times> nat" where
  "py_slice n a b = (slice_bound n a, slice_bound n b)"

text \<open>\<^verbatim>\<open>x[a:b, c:d]\<close> as a value, and as the target of an assignment.\<close>

definition get_slice :: "ndarray \<Rightarrow> nat \<times> nat \<Rightarrow> nat \<times> nat \<Rightarrow> ndarray" where
  "get_slice x rs cs =
     \<lparr>shape = (snd rs - fst rs, snd cs - fst cs),
      data = map (\<lambda>i. map (\<lambda>j. data x ! i ! j) [fst cs..<snd cs]) [fst rs..<snd rs]\<rparr>"

definition set_slice :: "ndarray \<Rightarrow> nat \<times> nat \<Rightarrow> nat \<times> nat \<Rightarrow> ndarray \<Rightarrow> ndarray" where
  "set_slice x rs cs v =
     x\<lparr>data := map (\<lambda>i. map (\<lambda>j.
          if fst rs \<le> i \<and> i < snd rs \<and> fst cs \<le> j \<and> j < snd cs
          then data v ! (i - fst rs) ! (j - fst cs) else data x ! i ! j)
        [0..<snd (shape x)]) [0..<fst (shape x)]\<rparr>"

text \<open>A scalar times an array, and the sum of two arrays of one shape.\<close>

definition scale :: "fval \<Rightarrow> ndarray \<Rightarrow> ndarray" where
  "scale k x = x\<lparr>data := map (map (fmul k)) (data x)\<rparr>"

definition add2 :: "ndarray \<Rightarrow> ndarray \<Rightarrow> ndarray" where
  "add2 x y = x\<lparr>data := map (\<lambda>(r, q). map (\<lambda>(u, v). fadd u v) (zip r q)) (zip (data x) (data y))\<rparr>"

text \<open>The window of the signal that the kernel entry \<open>(ki, kj)\<close> multiplies.\<close>

definition window :: "ndarray \<Rightarrow> ndarray \<Rightarrow> nat \<Rightarrow> nat \<Rightarrow> ndarray" where
  "window signal kern ki kj =
     (let Ms = int (fst (shape signal)); Ns = int (snd (shape signal));
          Mk = int (fst (shape kern)); Nk = int (snd (shape kern))
      in get_slice signal
           (py_slice (fst (shape signal)) (int ki) (Ms - Mk + 1 + int ki))
           (py_slice (snd (shape signal)) (int kj) (Ns - Nk + 1 + int kj)))"

definition xcorr2 :: "ndarray \<Rightarrow> ndarray \<Rightarrow> bool \<Rightarrow> py_error + ndarray" where
  "xcorr2 signal kern centered_p =
     (let Ms = int (fst (shape signal)); Ns = int (snd (shape signal));
          Mk = int (fst (shape kern)); Nk = int (snd (shape kern))
      in if Mk > Ms \<or> Nk > Ns
         then Inl (ValueError ''cannot have kernel bigger than signal'')
         else if \<not> centered_p
         then Inr (foldl (\<lambda>out ki. foldl (\<lambda>out kj.
                      add2 out (scale (data kern ! ki ! kj) (window signal kern ki kj)))
                    out [0..<nat Nk])
                (full (nat (Ms - Mk + 1), nat (Ns - Nk + 1)) (Num 0)) [0..<nat Mk])
         else let Ki = (Mk - 1) div 2;
                  Kj = (Nk - 1) div 2;
                  rs = py_slice (nat Ms) Ki (Ms - (Mk - 1 - Ki));
                  cs = py_slice (nat Ns) Kj (Ns - (Nk - 1 - Kj));
                  out = full (nat Ms, nat Ns) NaN;
                  out = set_slice out rs cs (full (snd rs - fst rs, snd cs - fst cs) (Num 0))
              in Inr (foldl (\<lambda>out ki. foldl (\<lambda>out kj.
                        set_slice out rs cs
                          (add2 (get_slice out rs cs)
                             (scale (data kern ! ki ! kj) (window signal kern ki kj))))
                      out [0..<nat Nk])
                    out [0..<nat Mk]))"

section \<open>Peak picking\<close>

text \<open>
  \<^verbatim>\<open>np.where\<close> on a two-dimensional condition lists the positions that satisfy it row by
  row, each row from left to right.
\<close>

definition np_where :: "('a \<Rightarrow> bool) \<Rightarrow> 'a list list \<Rightarrow> (nat \<times> nat) list" where
  "np_where P A =
     concat (map (\<lambda>i. map (\<lambda>j. (i, j)) (filter (\<lambda>j. P (A ! i ! j)) [0..<length (A ! i)]))
       [0..<length A])"

text \<open>Python's \<^verbatim>\<open>max\<close> of a sequence that is not empty.\<close>

definition py_max :: "nat list \<Rightarrow> nat" where
  "py_max xs = foldl max (hd xs) (tl xs)"

text \<open>
  \<^verbatim>\<open>np.argmax\<close> of a sequence that is not empty: the index of the first not-a-number
  if there is one, otherwise of the first occurrence of the greatest value.
\<close>

definition np_argmax :: "fval list \<Rightarrow> nat" where
  "np_argmax xs =
     fst (foldl (\<lambda>(bi, bv) (i, v). if \<not> isnan bv \<and> (isnan v \<or> flt bv v) then (i, v) else (bi, bv))
            (0, hd xs) (zip [0..<length xs] xs))"

text \<open>
  The mask of candidates: an array of \<open>False\<close> of shape \<open>(I + 1, J + 1)\<close>, set to
  \<open>True\<close> at the candidate positions.
\<close>

definition candidate_mask :: "nat \<Rightarrow> nat \<Rightarrow> (nat \<times> nat) list \<Rightarrow> bool list list" where
  "candidate_mask I J raw_ijs =
     foldl (\<lambda>m (i, j). set2 m i j True) (replicate (I + 1) (replicate (J + 1) False)) raw_ijs"

text \<open>
  The body of the loop over the labels. \<open>label_ijs\<close> lists the positions that carry the
  label \<open>ff + 1\<close>; \<^verbatim>\<open>candidate_p[label_p].sum()\<close> counts the candidates among them and
  \<^verbatim>\<open>label_p.sum()\<close> counts them all.
\<close>

definition picker_body ::
  "matrix \<Rightarrow> bool list list \<Rightarrow> nat list list \<Rightarrow>
   (nat \<times> nat) list \<times> bool list \<Rightarrow> nat \<Rightarrow> (nat \<times> nat) list \<times> bool list" where
  "picker_body probas candidate_p labelled_mat = (\<lambda>(ijs, remove_p) ff.
     let label_ijs = np_where (\<lambda>l. l = ff + 1) labelled_mat
     in if length (filter (\<lambda>(i, j). candidate_p ! i ! j) label_ijs) = 0
        then (ijs, remove_p[ff := True])
        else if length label_ijs = 1
        then (ijs, remove_p[ff := True])
        else let ijmax = np_argmax (map (\<lambda>(i, j). probas ! i ! j) label_ijs)
             in (ijs[ff := label_ijs ! ijmax], remove_p))"

text \<open>
  The result of \<^verbatim>\<open>picker\<close> is an array of coordinates or the string \<^verbatim>\<open>"NA"\<close>.
\<close>

datatype picked = NA | Coords "(nat \<times> nat) list"

text \<open>
  \<^verbatim>\<open>picker\<close>. The labelling of connected components \<^verbatim>\<open>measurements.label\<close> is scipy's;
  it is the parameter \<open>label\<close>, which returns the array of labels and their number.
  Indexing \<^verbatim>\<open>candidate_p\<close> with a mask of another shape raises IndexError.
\<close>

definition picker ::
  "(bool list list \<Rightarrow> nat list list \<times> nat) \<Rightarrow> matrix \<Rightarrow> fval \<Rightarrow> py_error + picked" where
  "picker label probas thres =
     (if \<exists>r \<in> set probas. \<exists>x \<in> set r. fgt x (Num 1)
      then Inl (ValueError ''probas must be <= 1.0'')
      else if \<exists>r \<in> set probas. \<exists>x \<in> set r. flt x (Num 0)
      then Inl (ValueError ''probas must be >= 0.0'')
      else let raw_ijs = np_where (\<lambda>x. fgt x thres) probas
           in if length raw_ijs > 0
              then let I = py_max (map fst raw_ijs);
                       J = py_max (map snd raw_ijs);
                       candidate_p = candidate_mask I J raw_ijs;
                       (labelled_mat, num_features) = label candidate_p
                   in if num_features > 0 \<and> map length labelled_mat \<noteq> map length candidate_p
                      then Inl IndexError
                      else let (ijs, remove_p) =
                                 foldl (picker_body probas candidate_p labelled_mat)
                                   (replicate num_features (0, 0), replicate num_features False)
                                   [0..<num_features]
                           in Inr (Coords (map fst (filter (\<lambda>(ij, r). \<not> r) (zip ijs remove_p))))
              else Inr NA)"

text \<open>
  What scipy's labelling promises, with its default structuring element: two positions
  are neighbours when they differ by one step along one axis; the labels are
  \<open>1, ..., num_features\<close>, each carried by some position; label 0 marks the background;
  and two foreground positions carry one label exactly when a chain of neighbouring
  foreground positions joins them.
\<close>

definition adj4 :: "nat \<times> nat \<Rightarrow> nat \<times> nat \<Rightarrow> bool" where
  "adj4 p q \<longleftrightarrow>
     (fst p = fst q \<and> (snd p = Suc (snd q) \<or> snd q = Suc (snd p))) \<or>
     (snd p = snd q \<and> (fst p = Suc (fst q) \<or> fst q = Suc (fst p)))"

definition positions :: "'a list list \<Rightarrow> (nat \<times> nat) list" where
  "positions A = np_where (\<lambda>_. True) A"

definition foreground :: "bool list list \<Rightarrow> (nat \<times> nat) list" where
  "foreground m = np_where (\<lambda>b. b) m"

definition neighbours :: "bool list list \<Rightarrow> ((nat \<times> nat) \<times> (nat \<times> nat)) set" where
  "neighbours m =
     set (filter (\<lambda>(p, q). adj4 p q) (List.product (foreground m) (foreground m)))"

definition label_of :: "nat list list \<Rightarrow> nat \<times> nat \<Rightarrow> nat" where
  "label_of L p = L ! fst p ! snd p"

definition labels_foreground :: "bool list list \<Rightarrow> nat list list \<times> nat \<Rightarrow> bool" where
  "labels_foreground m res \<longleftrightarrow>
     map length (fst res) = map length m \<and>
     (\<forall>p \<in> set (positions m). label_of (fst res) p \<noteq> 0 \<longleftrightarrow> m ! fst p ! snd p)"

definition labels_components :: "bool list list \<Rightarrow> nat list list \<times> nat \<Rightarrow> bool" where
  "labels_components m res \<longleftrightarrow>
     labels_foreground m res \<and>
     (\<forall>p \<in> set (positions m). label_of (fst res) p \<le> snd res) \<and>
     (\<forall>l \<in> {1..snd res}. \<exists>p \<in> set (positions m). label_of (fst res) p = l) \<and>
     (\<forall>p \<in> set (foreground m). \<forall>q \<in> set (foreground m).
        label_of (fst res) p = label_of (fst res) q \<longleftrightarrow> (p, q) \<in> (neighbours m)\<^sup>*)"

section \<open>The speckle filter in the words of its specification\<close>

text \<open>
  The distribution at distance \<open>nw\<close>: the values at that offset of the array as it is
  before any clipping. The threshold at that distance is the median of the distribution
  plus \<open>th2\<close> times its standard deviation. \<open>despeckles_fixed\<close> is the clipping pass run
  against thresholds \<open>ts\<close> that are fixed beforehand, one per distance.
\<close>

definition diag_values :: "matrix \<Rightarrow> nat \<Rightarrow> fval list" where
  "diag_values A nw = map (\<lambda>j. A ! j ! (j + nw)) [0..<length A - nw]"

definition clip_threshold :: "matrix \<Rightarrow> fval \<Rightarrow> nat \<Rightarrow> fval" where
  "clip_threshold A th2 nw =
     fadd (np_median (diag_values A nw)) (fmul th2 (np_std (diag_values A nw)))"

definition clip_fixed :: "fval \<Rightarrow> nat \<Rightarrow> nat \<Rightarrow> speckle_state \<Rightarrow> speckle_state" where
  "clip_fixed t j c = (\<lambda>(A, n_speckles, outlier).
     if fgt (A ! j ! c) t
     then (set2 A j c (Num 0), n_speckles + 1, outlier @ [(j, c)])
     else (A, n_speckles, outlier))"

definition despeckles_fixed :: "fval list \<Rightarrow> nat \<Rightarrow> speckle_state \<Rightarrow> speckle_state" where
  "despeckles_fixed ts n1 s =
     foldl (\<lambda>s nw. foldl (\<lambda>s j.
         let s1 = (if j + nw < n1 then clip_fixed (ts ! nw) j (j + nw) s else s)
         in if nw \<le> j then clip_fixed (ts ! nw) j (j - nw) s1 else s1)
       s [0..<n1]) s [0..<n1]"

text \<open>The invariant of the clipping pass.\<close>

definition clip_inv :: "nat \<Rightarrow> speckle_state \<Rightarrow> bool" where
  "clip_inv n = (\<lambda>(A, n_speckles, outlier).
     square n A \<and> n_speckles = length outlier \<and>
     (\<forall>(r, c) \<in> set outlier. A ! r ! c = Num 0))"

section \<open>The peak picker, taken apart\<close>

text \<open>
  The mask that \<^verbatim>\<open>picker\<close> hands to the labelling, and what its loop decides for the
  label \<open>ff + 1\<close>: nothing when the label is dropped, otherwise the chosen position.
\<close>

definition picker_mask :: "matrix \<Rightarrow> fval \<Rightarrow> bool list list" where
  "picker_mask probas thres =
     (let raw_ijs = np_where (\<lambda>x. fgt x thres) probas
      in candidate_mask (py_max (map fst raw_ijs)) (py_max (map snd raw_ijs)) raw_ijs)"

text \<open>
  A labelling with that contract, to run \<^verbatim>\<open>picker\<close> on given maps: the foreground
  positions are taken row by row; each joins the components it touches into the earliest
  of them, or starts a new one; the components are numbered in the order of their first
  positions.
\<close>

fun absorb :: "nat \<times> nat \<Rightarrow> (nat \<times> nat) list list \<Rightarrow> (nat \<times> nat) list list" where
  "absorb p [] = [[p]]"
| "absorb p (c # cs) =
     (if \<exists>q \<in> set c. adj4 p q
      then (c @ [p] @ concat (filter (\<lambda>d. \<exists>q \<in> set d. adj4 p q) cs))
             # filter (\<lambda>d. \<not> (\<exists>q \<in> set d. adj4 p q)) cs
      else c # absorb p cs)"

fun component_index :: "(nat \<times> nat) list list \<Rightarrow> nat \<times> nat \<Rightarrow> nat" where
  "component_index [] p = 0"
| "component_index (c # cs) p =
     (if p \<in> set c then 1
      else case component_index cs p of 0 \<Rightarrow> 0 | Suc k \<Rightarrow> Suc (Suc k))"

definition label4 :: "bool list list \<Rightarrow> nat list list \<times> nat" where
  "label4 m =
     (let comps = foldl (\<lambda>cs p. absorb p cs) [] (foreground m)
      in (map (\<lambda>i. map (\<lambda>j. component_index comps (i, j)) [0..<length (m ! i)]) [0..<length m],
          length comps))"

definition pick_label :: "matrix \<Rightarrow> bool list list \<Rightarrow> nat list list \<Rightarrow> nat \<Rightarrow> (nat \<times> nat) option" where
  "pick_label probas candidate_p labelled_mat ff =
     (let label_ijs = np_where (\<lambda>l. l = ff + 1) labelled_mat
      in if length (filter (\<lambda>(i, j). candidate_p ! i ! j) label_ijs) = 0 \<or> length label_ijs = 1
         then None
         else Some (label_ijs ! np_argmax (map (\<lambda>(i, j). probas ! i ! j) label_ijs)))"

section \<open>Cross-correlation, entry by entry\<close>

text \<open>
  The correlation value that the loops of \<^verbatim>\<open>xcorr2\<close> compute for the window of the signal
  whose first entry is \<open>(a, b)\<close>: starting from \<open>0.0\<close>, the kernel entries times the signal
  entries under them, added in the order of the loops. \<open>holds x sh f\<close> says that \<open>x\<close> is a
  well-formed array of shape \<open>sh\<close> whose entry \<open>(i, j)\<close> is \<open>f i j\<close>.
\<close>

definition xcorr_at :: "ndarray \<Rightarrow> ndarray \<Rightarrow> nat \<Rightarrow> nat \<Rightarrow> fval" where
  "xcorr_at signal kern a b =
     foldl (\<lambda>acc ki. foldl (\<lambda>acc kj.
         fadd acc (fmul (data kern ! ki ! kj) (data signal ! (ki + a) ! (kj + b))))
       acc [0..<snd (shape kern)]) (Num 0) [0..<fst (shape kern)]"

definition holds :: "ndarray \<Rightarrow> nat \<times> nat \<Rightarrow> (nat \<Rightarrow> nat \<Rightarrow> fval) \<Rightarrow> bool" where
  "holds x sh f \<longleftrightarrow>
     shape x = sh \<and> wf_ndarray x \<and> (\<forall>i < fst sh. \<forall>j < snd sh. data x ! i ! j = f i j)"

text \<open>The accumulation of one kernel entry, and of one kernel row, at every position.\<close>

definition acc_entry ::
  "ndarray \<Rightarrow> ndarray \<Rightarrow> nat \<Rightarrow> (nat \<Rightarrow> nat \<Rightarrow> fval) \<Rightarrow> nat \<Rightarrow> (nat \<Rightarrow> nat \<Rightarrow> fval)" where
  "acc_entry signal kern ki a kj =
     (\<lambda>i j. fadd (a i j) (fmul (data kern ! ki ! kj) (data signal ! (ki + i) ! (kj + j))))"

definition acc_row ::
  "ndarray \<Rightarrow> ndarray \<Rightarrow> (nat \<Rightarrow> nat \<Rightarrow> fval) \<Rightarrow> nat \<Rightarrow> (nat \<Rightarrow> nat \<Rightarrow> fval)" where
  "acc_row signal kern a ki = foldl (acc_entry signal kern ki) a [0..<snd (shape kern)]"

section \<open>One pass of the normalisation, entry by entry\<close>

text \<open>
  Row \<open>i\<close> is active when its sum is above the threshold. \<open>col_pass_value\<close> is what the
  loop over the columns leaves at \<open>(r, c)\<close>, and \<open>row_pass_value\<close> what the loop over the
  rows leaves there; \<open>nan0\<close> is the replacement of not-a-number by 0 that follows each.
\<close>

definition scn_active :: "matrix \<Rightarrow> fval \<Rightarrow> nat \<Rightarrow> bool" where
  "scn_active A threshold i \<longleftrightarrow> fgt (np_sum (A ! i)) threshold"

definition col_pass_value :: "nat list \<Rightarrow> nat list \<Rightarrow> matrix \<Rightarrow> nat \<Rightarrow> nat \<Rightarrow> fval" where
  "col_pass_value indices1 indices2 A r c =
     (if r \<in> set indices2 then Num 0
      else if r \<in> set indices1
      then fdiv (A ! r ! c) (np_sum (map (\<lambda>r'. A ! r' ! c) indices1))
      else A ! r ! c)"

definition row_pass_value :: "nat list \<Rightarrow> nat list \<Rightarrow> matrix \<Rightarrow> nat \<Rightarrow> nat \<Rightarrow> fval" where
  "row_pass_value indices1 indices2 A r c =
     (if c \<in> set indices2 then Num 0
      else if c \<in> set indices1
      then fdiv (A ! r ! c) (np_sum (map (\<lambda>c'. A ! r ! c') indices1))
      else A ! r ! c)"

definition nan0 :: "fval \<Rightarrow> fval" where
  "nan0 x = (if isnan x then Num 0 else x)"

text \<open>A family of arrays with row sums 1, on which the normalisation moves slowly.\<close>

definition tri :: "real \<Rightarrow> matrix" where
  "tri x = [[Num (1 - x), Num x], [Num 0, Num 1]]"

section \<open>The normalisation on arrays of non-negative numbers\<close>

text \<open>
  The contact maps handed to \<^verbatim>\<open>scn_func\<close> hold non-negative numbers. On such an array
  no sum overflows and the only undefined quotient is \<open>0 / 0\<close>, which \<^verbatim>\<open>np.nan_to_num\<close>
  turns into 0, so that one iteration can be described on the real values of the entries.
\<close>

fun val :: "fval \<Rightarrow> real" where
  "val (Num x) = x"
| "val PosInf = 0"
| "val NegInf = 0"
| "val NaN = 0"

definition entry :: "matrix \<Rightarrow> nat \<Rightarrow> nat \<Rightarrow> real" where
  "entry B r c = val (B ! r ! c)"

definition nonneg :: "nat \<Rightarrow> matrix \<Rightarrow> bool" where
  "nonneg n B \<longleftrightarrow> square n B \<and> (\<forall>r < n. \<forall>c < n. \<exists>x \<ge> 0. B ! r ! c = Num x)"

text \<open>A sum that is a number within \<open>e\<close> of 1.\<close>

definition near_one :: "real \<Rightarrow> fval \<Rightarrow> bool" where
  "near_one e s \<longleftrightarrow> (\<exists>x. s = Num x \<and> \<bar>x - 1\<bar> \<le> e)"

text \<open>
  The column pass and the row pass on real values, for the set \<open>S\<close> of active indices
  (a quotient by 0 is 0 in HOL, as it is after \<^verbatim>\<open>np.nan_to_num\<close> for a zero numerator).
\<close>

definition col_norm :: "nat set \<Rightarrow> (nat \<Rightarrow> nat \<Rightarrow> real) \<Rightarrow> nat \<Rightarrow> nat \<Rightarrow> real" where
  "col_norm S v r c = (if r \<in> S then v r c / (\<Sum>r' \<in> S. v r' c) else 0)"

definition row_norm :: "nat set \<Rightarrow> (nat \<Rightarrow> nat \<Rightarrow> real) \<Rightarrow> nat \<Rightarrow> nat \<Rightarrow> real" where
  "row_norm S v r c = (if c \<in> S then v r c / (\<Sum>c' \<in> S. v r c') else 0)"

text \<open>
  The invariant of the iterations: entries are non-negative and zero outside the active
  rows and columns, active rows sum to 1 and active columns to 1 within \<open>e\<close>.
\<close>

definition balanced :: "nat \<Rightarrow> nat set \<Rightarrow> real \<Rightarrow> matrix \<Rightarrow> bool" where
  "balanced n S e B \<longleftrightarrow> nonneg n B \<and>
     (\<forall>r < n. \<forall>c < n. r \<notin> S \<or> c \<notin> S \<longrightarrow> entry B r c = 0) \<and>
     (\<forall>r \<in> S. (\<Sum>c \<in> S. entry B r c) = 1) \<and>
     (\<forall>c \<in> S. \<bar>(\<Sum>r \<in> S. entry B r c) - 1\<bar> \<le> e)"

section \<open>The distance law is the mean of each lower diagonal\<close>

lemma foldl_update_upt:
  "n \<le> length xs \<Longrightarrow> foldl (\<lambda>l i. l[i := f i]) xs [0..<n] = map f [0..<n] @ drop n xs"
proof (induction n)
  case 0
  then show ?case by simp
next
  case (Suc n)
  then have "foldl (\<lambda>l i. l[i := f i]) xs [0..<Suc n] = (map f [0..<n] @ drop n xs)[n := f n]"
    by simp
  also have "\<dots> = map f [0..<n] @ (drop n xs)[0 := f n]"
    by (simp add: list_update_append)
  also have "(drop n xs)[0 := f n] = f n # drop (Suc n) xs"
    using Suc.prems Cons_nth_drop_Suc [of n xs, symmetric] by simp
  finally show ?case by simp
qed

lemma distance_law_map:
  "distance_law A = map (\<lambda>d. np_mean (np_diag_lower A d)) [0..<length A]"
  unfolding distance_law_def Let_def
  by (subst foldl_update_upt) simp_all

lemma ncols_square: "square n A \<Longrightarrow> ncols A = n"
  by (cases A) (auto simp: square_def ncols_def)

lemma np_diag_lower_square:
  assumes "square n A"
  shows "np_diag_lower A d = map (\<lambda>i. A ! i ! (i - d)) [d..<n]"
proof -
  have n: "length A = n" using assms by (simp add: square_def)
  have "map (\<lambda>i. A ! i ! (i - d)) [d..<n] = map (\<lambda>i. A ! (i + d) ! i) [0..<n - d]"
    by (rule nth_equalityI) (simp_all add: add.commute)
  then show ?thesis
    by (simp add: np_diag_lower_def n ncols_square [OF assms])
qed

text \<open>
  C8. \<^verbatim>\<open>distance_law\<close> returns one value per distance and does not touch its argument; on
  a square array of size \<open>n\<close> the entry \<open>d\<close> is the mean of the entries \<open>(i, i - d)\<close>,
  \<open>d \<le> i < n\<close>, of the \<open>d\<close>-th lower diagonal. On the array of the docstring, whose rows
  are all \<open>[2, 3, 4]\<close>, the result is \<open>[3.0, 2.5, 2.0]\<close>.
\<close>

theorem distance_law_diagonal_means:
  "(\<forall>n A d. square n A \<and> d < n \<longrightarrow>
      length (distance_law A) = n \<and>
      distance_law A ! d = np_mean (map (\<lambda>i. A ! i ! (i - d)) [d..<n])) \<and>
   distance_law [[Num 2, Num 3, Num 4], [Num 2, Num 3, Num 4], [Num 2, Num 3, Num 4]]
     = [Num 3, Num (5 / 2), Num 2]"
proof (intro conjI allI impI)
  fix n A d
  assume h: "square n A \<and> d < n"
  then have n: "length A = n" by (simp add: square_def)
  show "length (distance_law A) = n"
    by (simp add: distance_law_map n)
  show "distance_law A ! d = np_mean (map (\<lambda>i. A ! i ! (i - d)) [d..<n])"
    using h np_diag_lower_square [of n A d] by (simp add: distance_law_map n)
next
  show "distance_law [[Num 2, Num 3, Num 4], [Num 2, Num 3, Num 4], [Num 2, Num 3, Num 4]]
     = [Num 3, Num (5 / 2), Num 2]"
    by (simp add: distance_law_def np_diag_lower_def ncols_def np_mean_def np_sum_def upt_rec)
qed

theorem distance_law_diagonal_means_witness:
  "square 2 [[Num 1, Num 2], [Num 3, Num 5]] \<and> (1::nat) < 2 \<and>
   distance_law [[Num 1, Num 2], [Num 3, Num 5]] ! 0 = Num 3 \<and>
   distance_law [[Num 1, Num 2], [Num 3, Num 5]] ! 1 = Num 3"
proof -
  have sq: "square 2 [[Num 1, Num 2], [Num 3, Num 5]]"
    by (simp add: square_def)
  from distance_law_diagonal_means
  have gen: "\<And>n A d. square n A \<and> d < n \<Longrightarrow>
      distance_law A ! d = np_mean (map (\<lambda>i. A ! i ! (i - d)) [d..<n])"
    by blast
  have "distance_law [[Num 1, Num 2], [Num 3, Num 5]] ! 0 = Num 3"
    using gen [of 2 "[[Num 1, Num 2], [Num 3, Num 5]]" 0] sq
    by (simp add: np_mean_def np_sum_def upt_rec)
  moreover have "distance_law [[Num 1, Num 2], [Num 3, Num 5]] ! 1 = Num 3"
    using gen [of 2 "[[Num 1, Num 2], [Num 3, Num 5]]" 1] sq
    by (simp add: np_mean_def np_sum_def upt_rec)
  ultimately show ?thesis using sq by simp
qed

section \<open>The speckle filter\<close>

lemma foldl_cong_set:
  "(\<And>s x. x \<in> set xs \<Longrightarrow> f s x = g s x) \<Longrightarrow> foldl f s xs = foldl g s xs"
  by (induction xs arbitrary: s) simp_all

lemma foldl_invariant:
  "P s \<Longrightarrow> (\<And>s x. x \<in> set xs \<Longrightarrow> P s \<Longrightarrow> P (f s x)) \<Longrightarrow> P (foldl f s xs)"
  by (induction xs arbitrary: s) simp_all

lemma despeckles_group_filter:
  "foldl (\<lambda>group j. let lp = j + nw in if lp < n then group @ [A ! j ! lp] else group) acc xs
     = acc @ map (\<lambda>j. A ! j ! (j + nw)) (filter (\<lambda>j. j + nw < n) xs)"
  by (induction xs arbitrary: acc) (simp_all add: Let_def)

lemma filter_upt_less: "filter (\<lambda>j. j + nw < n) [0..<n] = [0..<n - nw]"
proof -
  have "filter (\<lambda>j. j + nw < n) [0..<m] = [0..<min m (n - nw)]" for m
  proof (induction m)
    case 0
    show ?case by simp
  next
    case (Suc m)
    have "m \<le> n - nw \<Longrightarrow> \<not> m + nw < n \<Longrightarrow> m = n - nw" by arith
    with Suc show ?case by (auto simp: min_def)
  qed
  from this [of n] show ?thesis by (simp add: min_absorb2)
qed

lemma despeckles_group_diag: "despeckles_group A nw = diag_values A nw"
  unfolding despeckles_group_def diag_values_def
  by (simp add: despeckles_group_filter filter_upt_less)

lemma despeckles_dist_upt:
  "foldl (\<lambda>d nw. d(nw \<mapsto> despeckles_group A nw)) Map.empty [0..<m]
     = (\<lambda>nw. if nw < m then Some (diag_values A nw) else None)"
  by (induction m) (auto simp: despeckles_group_diag fun_eq_iff)

lemma despeckles_dist_eq:
  "despeckles_dist A = (\<lambda>nw. if nw < length A then Some (diag_values A nw) else None)"
  unfolding despeckles_dist_def by (rule despeckles_dist_upt)

lemma clip_at_fixed: "clip_at (diag_values A nw) th2 = clip_fixed (clip_threshold A th2 nw)"
  by (simp add: clip_at_def clip_fixed_def clip_threshold_def fun_eq_iff)

lemma despeckles_clip_fixed:
  "despeckles_clip (despeckles_dist A) th2 (length A) s
     = despeckles_fixed (map (clip_threshold A th2) [0..<length A]) (length A) s"
  unfolding despeckles_clip_def despeckles_fixed_def
proof (rule foldl_cong_set)
  fix s nw assume nw: "nw \<in> set [0..<length A]"
  show "foldl (despeckles_step (despeckles_dist A) th2 (length A) nw) s [0..<length A] =
        foldl (\<lambda>s j. let s1 = (if j + nw < length A
                 then clip_fixed (map (clip_threshold A th2) [0..<length A] ! nw) j (j + nw) s else s)
              in if nw \<le> j then clip_fixed (map (clip_threshold A th2) [0..<length A] ! nw) j (j - nw) s1
                 else s1) s [0..<length A]"
  proof (rule foldl_cong_set)
    fix s j assume "j \<in> set [0..<length A]"
    have k: "nw \<le> j \<Longrightarrow> nat (int j - int nw) = j - nw" by simp
    show "despeckles_step (despeckles_dist A) th2 (length A) nw s j =
          (let s1 = (if j + nw < length A
                 then clip_fixed (map (clip_threshold A th2) [0..<length A] ! nw) j (j + nw) s else s)
              in if nw \<le> j then clip_fixed (map (clip_threshold A th2) [0..<length A] ! nw) j (j - nw) s1
                 else s1)"
      using nw k by (simp add: despeckles_step_def despeckles_dist_eq clip_at_fixed Let_def)
  qed
qed

lemma despeckles_eq_fixed:
  "despeckles A th2 =
     (despeckles_dist A,
      despeckles_fixed (map (clip_threshold A th2) [0..<length A]) (length A) (A, 0, []))"
  unfolding despeckles_def Let_def despeckles_clip_fixed
  by (simp split: prod.splits)

text \<open>
  C3. For a square array \<open>A\<close> of size \<open>n\<close>, \<^verbatim>\<open>despeckles\<close> returns as distributions the
  values of the array it was given (for each distance \<open>nw < n\<close> the entries
  \<open>A[j, j + nw]\<close>), and its array, counter and outliers are those of the clipping pass
  run against the thresholds median + \<open>th2\<close> times standard deviation of those
  distributions, computed from \<open>A\<close> before the pass, at \<open>(j, j + nw)\<close> and at
  \<open>(j, j - nw)\<close> alike. The values stored in \<^verbatim>\<open>dist\<close> are numbers read from the array, not
  views of it, so clipping cannot reach them.
\<close>

theorem despeckles_fixed_distributions:
  assumes "square n A"
  shows "despeckles A th2 =
           (\<lambda>nw. if nw < n then Some (diag_values A nw) else None,
            despeckles_fixed (map (clip_threshold A th2) [0..<n]) n (A, 0, []))"
proof -
  have n: "length A = n" using assms by (simp add: square_def)
  show ?thesis
    by (simp add: despeckles_eq_fixed n despeckles_dist_eq)
qed

theorem despeckles_fixed_distributions_witness:
  "square 2 [[Num 1, Num 5], [Num 7, Num 3]] \<and>
   fst (despeckles [[Num 1, Num 5], [Num 7, Num 3]] (Num (1 / 2))) 0 = Some [Num 1, Num 3] \<and>
   fst (despeckles [[Num 1, Num 5], [Num 7, Num 3]] (Num (1 / 2))) 1 = Some [Num 5] \<and>
   snd (despeckles [[Num 1, Num 5], [Num 7, Num 3]] (Num (1 / 2)))
     = ([[Num 1, Num 5], [Num 0, Num 0]], 2, [(1, 1), (1, 0)])"
proof -
  have sq: "square 2 [[Num 1, Num 5], [Num 7, Num 3]]"
    by (simp add: square_def)
  have t0: "clip_threshold [[Num 1, Num 5], [Num 7, Num 3]] (Num (1 / 2)) 0 = Num (5 / 2)"
    by (simp add: clip_threshold_def diag_values_def upt_rec np_median_def np_std_def np_mean_def
        np_sum_def fsort_def fsub_def)
  have t1: "clip_threshold [[Num 1, Num 5], [Num 7, Num 3]] (Num (1 / 2)) (Suc 0) = Num 5"
    by (simp add: clip_threshold_def diag_values_def upt_rec np_median_def np_std_def np_mean_def
        np_sum_def fsort_def fsub_def)
  have u: "[0..<2] = [0, Suc 0]" by (simp add: upt_rec)
  show ?thesis
    using despeckles_fixed_distributions [OF sq, of "Num (1 / 2)"] sq
    by (simp add: despeckles_fixed_def clip_fixed_def set2_def fgt_def diag_values_def u t0 t1 Let_def)
qed

lemma square_nth: "square n A \<Longrightarrow> i < n \<Longrightarrow> length (A ! i) = n"
  by (simp add: square_def)

lemma square_iff_nth: "square n A \<longleftrightarrow> length A = n \<and> (\<forall>i < n. length (A ! i) = n)"
  by (auto simp: square_def all_set_conv_all_nth)

lemma square_set2: "square n A \<Longrightarrow> square n (set2 A i j v)"
proof -
  assume sq: "square n A"
  have "length (A[i := (A ! i)[j := v]] ! k) = n" if "k < n" for k
    using sq that by (cases "k = i") (simp_all add: square_iff_nth)
  with sq show ?thesis by (simp add: square_iff_nth set2_def)
qed

lemma set2_nth:
  "square n A \<Longrightarrow> i < n \<Longrightarrow> j < n \<Longrightarrow>
     set2 A i j v ! r ! c = (if r = i \<and> c = j then v else A ! r ! c)"
  by (auto simp: square_def set2_def nth_list_update)

lemma clip_at_inv:
  assumes "clip_inv n s" "j < n" "c < n"
  shows "clip_inv n (clip_at d th2 j c s)"
proof -
  obtain A k out where s: "s = (A, k, out)" by (cases s)
  with assms(1) have sq: "square n A" by (simp add: clip_inv_def)
  show ?thesis
    using assms unfolding s clip_at_def clip_inv_def
    by (auto simp: square_set2 set2_nth [OF sq])
qed

lemma despeckles_step_inv:
  assumes "clip_inv n s" "j < n"
  shows "clip_inv n (despeckles_step dists th2 n nw s j)"
proof -
  have "int j - int nw \<ge> 0 \<Longrightarrow> nat (int j - int nw) < n" using assms(2) by simp
  then show ?thesis
    using assms by (simp add: despeckles_step_def Let_def clip_at_inv)
qed

lemma despeckles_clip_inv:
  assumes "clip_inv n s"
  shows "clip_inv n (despeckles_clip dists th2 n s)"
  unfolding despeckles_clip_def
proof (rule foldl_invariant [where P = "clip_inv n"])
  show "clip_inv n s" by (rule assms)
next
  fix s nw assume "clip_inv n s"
  then show "clip_inv n (foldl (despeckles_step dists th2 n nw) s [0..<n])"
    by (rule foldl_invariant [where P = "clip_inv n"]) (simp add: despeckles_step_inv)
qed

text \<open>
  C4. When \<^verbatim>\<open>despeckles\<close> on a square array returns distributions, an array, a count and a
  list of outliers, the count is the length of the list and the returned array is 0 at
  every listed coordinate.
\<close>

theorem despeckles_outliers_zeroed:
  assumes "square n A" and "despeckles A th2 = (dists, A', n_speckles, outlier)"
  shows "n_speckles = length outlier \<and> (\<forall>(r, c) \<in> set outlier. A' ! r ! c = Num 0)"
proof -
  have n: "length A = n" using assms(1) by (simp add: square_def)
  have "clip_inv n (A, 0, [])" using assms(1) by (simp add: clip_inv_def)
  then have "clip_inv n (despeckles_clip (despeckles_dist A) th2 n (A, 0, []))"
    by (rule despeckles_clip_inv)
  moreover have "despeckles_clip (despeckles_dist A) th2 n (A, 0, []) = (A', n_speckles, outlier)"
    using assms(2) by (auto simp: despeckles_def Let_def n split: prod.splits)
  ultimately show ?thesis by (simp add: clip_inv_def)
qed

theorem despeckles_outliers_zeroed_witness:
  "square 2 [[Num 2, Num 1], [Num 3, Num 0]] \<and>
   snd (despeckles [[Num 2, Num 1], [Num 3, Num 0]] (Num 0))
     = ([[Num 0, Num 1], [Num 0, Num 0]], 2, [(0, 0), (1, 0)]) \<and>
   (2::nat) = length [(0::nat, 0::nat), (1, 0)] \<and>
   [[Num 0, Num 1], [Num 0, Num 0]] ! 0 ! 0 = Num 0 \<and>
   [[Num 0, Num 1], [Num 0, Num 0]] ! 1 ! 0 = Num 0"
proof -
  have sq: "square 2 [[Num 2, Num 1], [Num 3, Num 0]]"
    by (simp add: square_def)
  have t0: "clip_threshold [[Num 2, Num 1], [Num 3, Num 0]] (Num 0) 0 = Num 1"
    by (simp add: clip_threshold_def diag_values_def upt_rec np_median_def np_std_def np_mean_def
        np_sum_def fsort_def fsub_def)
  have t1: "clip_threshold [[Num 2, Num 1], [Num 3, Num 0]] (Num 0) (Suc 0) = Num 1"
    by (simp add: clip_threshold_def diag_values_def upt_rec np_median_def np_std_def np_mean_def
        np_sum_def fsort_def fsub_def)
  have u: "[0..<2] = [0, Suc 0]" by (simp add: upt_rec)
  have e: "despeckles [[Num 2, Num 1], [Num 3, Num 0]] (Num 0)
             = (despeckles_dist [[Num 2, Num 1], [Num 3, Num 0]],
                [[Num 0, Num 1], [Num 0, Num 0]], 2, [(0, 0), (1, 0)])"
    by (simp add: despeckles_eq_fixed despeckles_fixed_def clip_fixed_def set2_def fgt_def u t0 t1
        Let_def)
  show ?thesis
    using despeckles_outliers_zeroed [OF sq e] sq e by simp
qed

section \<open>Peak picking\<close>

lemma set_np_where:
  "set (np_where P A) = {(i, j). i < length A \<and> j < length (A ! i) \<and> P (A ! i ! j)}"
  by (auto simp: np_where_def)

lemma distinct_concat_map:
  "distinct xs \<Longrightarrow> (\<And>x. x \<in> set xs \<Longrightarrow> distinct (f x)) \<Longrightarrow>
   (\<And>x y. x \<in> set xs \<Longrightarrow> y \<in> set xs \<Longrightarrow> x \<noteq> y \<Longrightarrow> set (f x) \<inter> set (f y) = {}) \<Longrightarrow>
   distinct (concat (map f xs))"
  by (induction xs) auto

lemma distinct_np_where: "distinct (np_where P A)"
  unfolding np_where_def
  by (rule distinct_concat_map) (auto simp: distinct_map inj_on_def)

lemma np_where_Nil_iff:
  "np_where P A = [] \<longleftrightarrow> (\<forall>r \<in> set A. \<forall>x \<in> set r. \<not> P x)"
proof -
  have "np_where P A = [] \<longleftrightarrow> set (np_where P A) = {}" by simp
  also have "\<dots> \<longleftrightarrow> (\<forall>i < length A. \<forall>j < length (A ! i). \<not> P (A ! i ! j))"
    unfolding set_np_where by auto
  also have "\<dots> \<longleftrightarrow> (\<forall>r \<in> set A. \<forall>x \<in> set r. \<not> P x)"
    by (simp add: all_set_conv_all_nth)
  finally show ?thesis .
qed

lemma picker_too_big:
  "\<exists>r \<in> set probas. \<exists>x \<in> set r. fgt x (Num 1) \<Longrightarrow>
     picker label probas thres = Inl (ValueError ''probas must be <= 1.0'')"
  by (simp add: picker_def)

lemma picker_negative:
  "\<not> (\<exists>r \<in> set probas. \<exists>x \<in> set r. fgt x (Num 1)) \<Longrightarrow>
   \<exists>r \<in> set probas. \<exists>x \<in> set r. flt x (Num 0) \<Longrightarrow>
     picker label probas thres = Inl (ValueError ''probas must be >= 0.0'')"
  by (simp add: picker_def)

lemma picker_no_candidate:
  "\<not> (\<exists>r \<in> set probas. \<exists>x \<in> set r. fgt x (Num 1)) \<Longrightarrow>
   \<not> (\<exists>r \<in> set probas. \<exists>x \<in> set r. flt x (Num 0)) \<Longrightarrow>
   np_where (\<lambda>x. fgt x thres) probas = [] \<Longrightarrow>
     picker label probas thres = Inr NA"
  by (simp add: picker_def)

lemma picker_body_pick:
  "picker_body probas candidate_p labelled_mat (ijs, remove_p) ff =
     (case pick_label probas candidate_p labelled_mat ff of
        None \<Rightarrow> (ijs, remove_p[ff := True])
      | Some p \<Rightarrow> (ijs[ff := p], remove_p))"
  by (simp add: picker_body_def pick_label_def Let_def)

lemma picker_loop_upt:
  assumes "m \<le> k"
  shows "foldl (picker_body probas candidate_p labelled_mat)
           (replicate k z, replicate k False) [0..<m]
         = (map (\<lambda>ff. case pick_label probas candidate_p labelled_mat ff of None \<Rightarrow> z | Some p \<Rightarrow> p)
              [0..<m] @ replicate (k - m) z,
            map (\<lambda>ff. pick_label probas candidate_p labelled_mat ff = None) [0..<m]
              @ replicate (k - m) False)"
  using assms
proof (induction m)
  case 0
  then show ?case by simp
next
  case (Suc m)
  then have r: "replicate (k - m) x = x # replicate (k - Suc m) x" for x :: 'a
    by (cases "k - m") (simp_all add: Suc_diff_Suc)
  show ?case
    using Suc
    by (simp add: picker_body_pick r [of z] r [of False] list_update_append split: option.split)
qed

lemma filter_zip_map:
  "map fst (filter (\<lambda>(ij, r). \<not> r) (zip (map a xs) (map b xs))) = map a (filter (\<lambda>x. \<not> b x) xs)"
  by (induction xs) simp_all

lemma picker_loop_result:
  "(case foldl (picker_body probas candidate_p labelled_mat)
           (replicate k z, replicate k False) [0..<k] of
      (ijs, remove_p) \<Rightarrow> map fst (filter (\<lambda>(ij, r). \<not> r) (zip ijs remove_p)))
   = List.map_filter (pick_label probas candidate_p labelled_mat) [0..<k]"
proof -
  have "map (\<lambda>ff. case pick_label probas candidate_p labelled_mat ff of None \<Rightarrow> z | Some p \<Rightarrow> p)
          (filter (\<lambda>ff. \<not> pick_label probas candidate_p labelled_mat ff = None) xs)
        = List.map_filter (pick_label probas candidate_p labelled_mat) xs" for xs
    by (induction xs) (auto simp: List.map_filter_simps split: option.splits)
  then show ?thesis
    by (simp add: picker_loop_upt [OF le_refl] filter_zip_map)
qed

lemma picker_candidates:
  assumes "\<not> (\<exists>r \<in> set probas. \<exists>x \<in> set r. fgt x (Num 1))"
    and "\<not> (\<exists>r \<in> set probas. \<exists>x \<in> set r. flt x (Num 0))"
    and "np_where (\<lambda>x. fgt x thres) probas \<noteq> []"
    and "label (picker_mask probas thres) = (labelled_mat, num_features)"
  shows "picker label probas thres =
     (if num_features > 0 \<and> map length labelled_mat \<noteq> map length (picker_mask probas thres)
      then Inl IndexError
      else Inr (Coords (List.map_filter
             (pick_label probas (picker_mask probas thres) labelled_mat) [0..<num_features])))"
proof -
  have "picker label probas thres =
     (if num_features > 0 \<and> map length labelled_mat \<noteq> map length (picker_mask probas thres)
      then Inl IndexError
      else Inr (Coords (case foldl (picker_body probas (picker_mask probas thres) labelled_mat)
           (replicate num_features (0, 0), replicate num_features False) [0..<num_features] of
      (ijs, remove_p) \<Rightarrow> map fst (filter (\<lambda>(ij, r). \<not> r) (zip ijs remove_p)))))"
    using assms unfolding picker_def picker_mask_def Let_def
    by (simp split: prod.splits)
  then show ?thesis by (simp only: picker_loop_result)
qed



lemma map_length_set2: "map length (set2 m i j v) = map length m"
proof (cases "i < length m")
  case True
  then have "(map length m)[i := length (m ! i)] = map length m"
    by (metis list_update_id nth_map length_map)
  then show ?thesis by (simp add: set2_def map_update)
next
  case False
  then show ?thesis by (simp add: set2_def list_update_beyond)
qed

lemma nth_set2:
  "i < length m \<Longrightarrow> j < length (m ! i) \<Longrightarrow>
     set2 m i j v ! r ! c = (if r = i \<and> c = j then v else m ! r ! c)"
  by (auto simp: set2_def nth_list_update)

lemma length_nth_eq: "map length A = map length B \<Longrightarrow> i < length A \<Longrightarrow> length (A ! i) = length (B ! i)"
  by (metis length_map nth_map)

lemma foldl_set2_True:
  assumes "\<forall>(i, j) \<in> set ps. i < length m \<and> j < length (m ! i)"
  shows "map length (foldl (\<lambda>m (i, j). set2 m i j True) m ps) = map length m \<and>
         (\<forall>i < length m. \<forall>j < length (m ! i).
            foldl (\<lambda>m (i, j). set2 m i j True) m ps ! i ! j \<longleftrightarrow> m ! i ! j \<or> (i, j) \<in> set ps)"
  using assms
proof (induction ps arbitrary: m)
  case Nil
  then show ?case by simp
next
  case (Cons p ps)
  obtain a b where p: "p = (a, b)" by (cases p)
  from Cons.prems p have ab: "a < length m" "b < length (m ! a)" by auto
  let ?m = "set2 m a b True"
  have len: "map length ?m = map length m" by (rule map_length_set2)
  then have l: "length ?m = length m" by (metis length_map)
  have ln: "length (?m ! i) = length (m ! i)" if "i < length m" for i
    using length_nth_eq [OF len] that l by simp
  have pre: "\<forall>(i, j) \<in> set ps. i < length ?m \<and> j < length (?m ! i)"
    using Cons.prems l ln by auto
  from Cons.IH [OF pre] show ?case
    using len l ln nth_set2 [OF ab] by (auto simp: p)
qed

lemma foldl_max_ge: "a \<le> foldl max a xs \<and> (\<forall>x \<in> set xs. x \<le> foldl max a xs)" for a :: nat
proof (induction xs arbitrary: a)
  case Nil
  then show ?case by simp
next
  case (Cons x xs)
  from Cons.IH [of "max a x"] show ?case by auto
qed

lemma py_max_ge: "x \<in> set xs \<Longrightarrow> x \<le> py_max xs"
  using foldl_max_ge [of "hd xs" "tl xs"] by (cases xs) (auto simp: py_max_def)

lemma picker_mask_props:
  assumes "np_where (\<lambda>x. fgt x thres) probas \<noteq> []"
  shows "\<forall>i < length (picker_mask probas thres). \<forall>j < length (picker_mask probas thres ! i).
           picker_mask probas thres ! i ! j \<longleftrightarrow>
           i < length probas \<and> j < length (probas ! i) \<and> fgt (probas ! i ! j) thres"
proof -
  let ?raw = "np_where (\<lambda>x. fgt x thres) probas"
  let ?I = "py_max (map fst ?raw)" and ?J = "py_max (map snd ?raw)"
  let ?z = "replicate (?I + 1) (replicate (?J + 1) False)"
  have bound: "\<forall>(i, j) \<in> set ?raw. i < length ?z \<and> j < length (?z ! i)"
  proof (clarify)
    fix i j assume ij: "(i, j) \<in> set ?raw"
    then have "i \<in> set (map fst ?raw)" "j \<in> set (map snd ?raw)" by force+
    then have "i \<le> ?I" "j \<le> ?J" by (simp_all add: py_max_ge)
    then show "i < length ?z \<and> j < length (?z ! i)" by (simp del: replicate_Suc)
  qed
  have m: "picker_mask probas thres = foldl (\<lambda>m (i, j). set2 m i j True) ?z ?raw"
    by (simp del: replicate_Suc add: picker_mask_def candidate_mask_def Let_def)
  from foldl_set2_True [OF bound]
  have len: "map length (picker_mask probas thres) = map length ?z"
    and val: "\<forall>i < length ?z. \<forall>j < length (?z ! i).
       picker_mask probas thres ! i ! j \<longleftrightarrow> ?z ! i ! j \<or> (i, j) \<in> set ?raw"
    unfolding m by blast+
  have l: "length (picker_mask probas thres) = length ?z" using len by (metis length_map)
  show ?thesis
  proof (intro allI impI)
    fix i j assume i: "i < length (picker_mask probas thres)"
      and j: "j < length (picker_mask probas thres ! i)"
    from i l have i': "i < length ?z" by simp
    from j length_nth_eq [OF len i] have j': "j < length (?z ! i)" by simp
    from i' j' have "\<not> ?z ! i ! j" by (simp del: replicate_Suc)
    with val i' j' have "picker_mask probas thres ! i ! j \<longleftrightarrow> (i, j) \<in> set ?raw" by blast
    then show "picker_mask probas thres ! i ! j \<longleftrightarrow>
           i < length probas \<and> j < length (probas ! i) \<and> fgt (probas ! i ! j) thres"
      by (simp add: set_np_where)
  qed
qed

lemma np_argmax_less:
  assumes "xs \<noteq> []"
  shows "np_argmax xs < length xs"
proof -
  have "fst (foldl (\<lambda>(bi, bv) (i, v). if \<not> isnan bv \<and> (isnan v \<or> flt bv v) then (i, v) else (bi, bv))
            (b, w) ps) \<in> insert b (fst ` set ps)" for b w and ps :: "(nat \<times> fval) list"
  proof (induction ps arbitrary: b w)
    case Nil
    show ?case by simp
  next
    case (Cons p ps)
    obtain i v where p: "p = (i, v)" by (cases p)
    show ?case
      using Cons.IH [of i v] Cons.IH [of b w] by (auto simp: p)
  qed
  from this [of 0 "hd xs" "zip [0..<length xs] xs"]
  have "np_argmax xs \<in> insert 0 (fst ` set (zip [0..<length xs] xs))"
    by (simp add: np_argmax_def)
  moreover have "fst ` set (zip [0..<length xs] xs) \<subseteq> {0..<length xs}"
    by (auto dest: set_zip_leftD)
  ultimately show ?thesis using assms by auto
qed

lemma pick_label_Some:
  assumes "pick_label probas candidate_p labelled_mat ff = Some p"
  shows "p \<in> set (np_where (\<lambda>l. l = ff + 1) labelled_mat)"
proof -
  let ?c = "np_where (\<lambda>l. l = ff + 1) labelled_mat"
  from assms have ne: "?c \<noteq> []"
    by (auto simp: pick_label_def Let_def split: if_splits)
  from assms have "p = ?c ! np_argmax (map (\<lambda>(i, j). probas ! i ! j) ?c)"
    by (auto simp: pick_label_def Let_def split: if_splits)
  moreover have "np_argmax (map (\<lambda>(i, j). probas ! i ! j) ?c) < length ?c"
    using np_argmax_less [of "map (\<lambda>(i, j). probas ! i ! j) ?c"] ne by simp
  ultimately show ?thesis by simp
qed

text \<open>
  C10. When \<^verbatim>\<open>picker\<close> returns coordinates, each of them is a position of the
  probability map itself, with no offset, and the probability there is strictly above
  the threshold. The labelling is assumed to return an array of the shape of the mask
  that is 0 exactly on the background, as scipy's does.
\<close>

theorem picker_coordinates_exceed_threshold:
  assumes res: "picker label probas thres = Inr (Coords cs)"
    and lab: "labels_foreground (picker_mask probas thres) (label (picker_mask probas thres))"
  shows "\<forall>(i, j) \<in> set cs.
           i < length probas \<and> j < length (probas ! i) \<and> fgt (probas ! i ! j) thres"
proof -
  let ?m = "picker_mask probas thres"
  obtain L k where lk: "label ?m = (L, k)" by (cases "label ?m")
  have v1: "\<not> (\<exists>r \<in> set probas. \<exists>x \<in> set r. fgt x (Num 1))"
    using res picker_too_big [of probas label thres] by auto
  have v2: "\<not> (\<exists>r \<in> set probas. \<exists>x \<in> set r. flt x (Num 0))"
    using res v1 picker_negative [of probas label thres] by auto
  have ne: "np_where (\<lambda>x. fgt x thres) probas \<noteq> []"
    using res picker_no_candidate [OF v1 v2, of thres label] by auto
  from res picker_candidates [where label = label, OF v1 v2 ne lk]
  have cs: "cs = List.map_filter (pick_label probas ?m L) [0..<k]"
    by (auto split: if_splits)
  from lab lk have len: "map length L = map length ?m"
    and fg: "\<forall>p \<in> set (positions ?m). label_of L p \<noteq> 0 \<longleftrightarrow> ?m ! fst p ! snd p"
    by (simp_all add: labels_foreground_def)
  have l: "length L = length ?m" using len by (metis length_map)
  show ?thesis
  proof (clarify)
    fix i j assume "(i, j) \<in> set cs"
    then obtain ff where "pick_label probas ?m L ff = Some (i, j)"
      by (auto simp: cs List.map_filter_def)
    then have "(i, j) \<in> set (np_where (\<lambda>l. l = ff + 1) L)" by (rule pick_label_Some)
    then have i: "i < length L" and j: "j < length (L ! i)" and lij: "L ! i ! j = ff + 1"
      by (simp_all add: set_np_where)
    have i': "i < length ?m" using i l by simp
    have j': "j < length (?m ! i)" using j length_nth_eq [OF len i] by simp
    have "(i, j) \<in> set (positions ?m)"
      using i' j' by (simp add: positions_def set_np_where)
    with fg lij have "?m ! i ! j" by (force simp: label_of_def)
    with picker_mask_props [OF ne] i' j'
    show "i < length probas \<and> j < length (probas ! i) \<and> fgt (probas ! i ! j) thres"
      by blast
  qed
qed


theorem picker_coordinates_exceed_threshold_witness:
  "picker label4 [[Num (9 / 10), Num (17 / 20), Num 0], [Num 0, Num 0, Num (19 / 20)]] (Num (4 / 5))
     = Inr (Coords [(0, 0)]) \<and>
   labels_foreground
     (picker_mask [[Num (9 / 10), Num (17 / 20), Num 0], [Num 0, Num 0, Num (19 / 20)]] (Num (4 / 5)))
     (label4 (picker_mask [[Num (9 / 10), Num (17 / 20), Num 0], [Num 0, Num 0, Num (19 / 20)]]
        (Num (4 / 5)))) \<and>
   fgt ([[Num (9 / 10), Num (17 / 20), Num 0], [Num 0, Num 0, Num (19 / 20)]] ! 0 ! 0) (Num (4 / 5))"
proof -
  let ?P = "[[Num (9 / 10), Num (17 / 20), Num 0], [Num 0, Num 0, Num (19 / 20)]]"
  have r: "picker label4 ?P (Num (4 / 5)) = Inr (Coords [(0, 0)])"
    by code_simp
  have l: "labels_foreground (picker_mask ?P (Num (4 / 5))) (label4 (picker_mask ?P (Num (4 / 5))))"
    by code_simp
  from picker_coordinates_exceed_threshold [OF r l] show ?thesis
    using r l by simp
qed

lemma unit_interval_valid:
  "fle (Num 0) x \<and> fle x (Num 1) \<Longrightarrow> \<not> fgt x (Num 1) \<and> \<not> flt x (Num 0)"
  by (cases x) (auto simp: fgt_def)

text \<open>
  C7. On a probability map with all values in \<open>[0, 1]\<close>: when no value is strictly above
  the threshold, \<^verbatim>\<open>picker\<close> returns \<^verbatim>\<open>"NA"\<close>; it returns coordinates only when some value
  is strictly above the threshold; and \<^verbatim>\<open>"NA"\<close> is not the empty list of coordinates
  (which is what a map with one lone candidate gives).
\<close>

theorem picker_no_result_sentinel:
  assumes "\<forall>r \<in> set probas. \<forall>x \<in> set r. fle (Num 0) x \<and> fle x (Num 1)"
  shows "((\<forall>r \<in> set probas. \<forall>x \<in> set r. \<not> fgt x thres) \<longrightarrow> picker label probas thres = Inr NA) \<and>
         (\<forall>cs. picker label probas thres = Inr (Coords cs) \<longrightarrow>
               (\<exists>r \<in> set probas. \<exists>x \<in> set r. fgt x thres)) \<and>
         NA \<noteq> Coords []"
proof -
  have v1: "\<not> (\<exists>r \<in> set probas. \<exists>x \<in> set r. fgt x (Num 1))"
    and v2: "\<not> (\<exists>r \<in> set probas. \<exists>x \<in> set r. flt x (Num 0))"
    using assms unit_interval_valid by blast+
  have a: "picker label probas thres = Inr NA"
    if "\<forall>r \<in> set probas. \<forall>x \<in> set r. \<not> fgt x thres"
    using that by (intro picker_no_candidate [OF v1 v2]) (simp add: np_where_Nil_iff)
  have b: "\<exists>r \<in> set probas. \<exists>x \<in> set r. fgt x thres"
    if "picker label probas thres = Inr (Coords cs)" for cs
  proof (rule ccontr)
    assume "\<not> (\<exists>r \<in> set probas. \<exists>x \<in> set r. fgt x thres)"
    then have "picker label probas thres = Inr NA" using a by blast
    with that show False by simp
  qed
  from a b show ?thesis by blast
qed

theorem picker_no_result_sentinel_witness:
  "picker label4 [[Num (1 / 2), Num (3 / 10)]] (Num (4 / 5)) = Inr NA \<and>
   picker label4 [[Num (9 / 10), Num (3 / 10)]] (Num (4 / 5)) = Inr (Coords []) \<and>
   (\<exists>r \<in> set [[Num (9 / 10), Num (3 / 10)]]. \<exists>x \<in> set r. fgt x (Num (4 / 5)))"
proof -
  have h1: "\<forall>r \<in> set [[Num (1 / 2), Num (3 / 10)]]. \<forall>x \<in> set r. fle (Num 0) x \<and> fle x (Num 1)"
    by simp
  have n1: "\<forall>r \<in> set [[Num (1 / 2), Num (3 / 10)]]. \<forall>x \<in> set r. \<not> fgt x (Num (4 / 5))"
    by (simp add: fgt_def)
  have h2: "\<forall>r \<in> set [[Num (9 / 10), Num (3 / 10)]]. \<forall>x \<in> set r. fle (Num 0) x \<and> fle x (Num 1)"
    by simp
  have c2: "picker label4 [[Num (9 / 10), Num (3 / 10)]] (Num (4 / 5)) = Inr (Coords [])"
    by code_simp
  from picker_no_result_sentinel [OF h1, of "Num (4 / 5)" label4] n1
  have "picker label4 [[Num (1 / 2), Num (3 / 10)]] (Num (4 / 5)) = Inr NA" by blast
  moreover from picker_no_result_sentinel [OF h2, of "Num (4 / 5)" label4] c2
  have "\<exists>r \<in> set [[Num (9 / 10), Num (3 / 10)]]. \<exists>x \<in> set r. fgt x (Num (4 / 5))" by blast
  ultimately show ?thesis using c2 by blast
qed

lemma xcorr2_error_iff:
  "(\<exists>e. xcorr2 signal kern centered_p = Inl e) \<longleftrightarrow>
     fst (shape kern) > fst (shape signal) \<or> snd (shape kern) > snd (shape signal)"
  by (auto simp: xcorr2_def Let_def)

lemma xcorr2_error_early:
  "fst (shape kern) > fst (shape signal) \<or> snd (shape kern) > snd (shape signal) \<Longrightarrow>
     xcorr2 (signal\<lparr>data := d\<rparr>) (kern\<lparr>data := d'\<rparr>) centered_p
       = Inl (ValueError ''cannot have kernel bigger than signal'')"
  by (auto simp: xcorr2_def Let_def)

lemma picker_error_iff:
  "(\<exists>msg. picker label probas thres = Inl (ValueError msg)) \<longleftrightarrow>
     (\<exists>r \<in> set probas. \<exists>x \<in> set r. fgt x (Num 1) \<or> flt x (Num 0))"
proof (cases "(\<exists>r \<in> set probas. \<exists>x \<in> set r. fgt x (Num 1)) \<or> (\<exists>r \<in> set probas. \<exists>x \<in> set r. flt x (Num 0))")
  case True
  then have "\<exists>msg. picker label probas thres = Inl (ValueError msg)"
    using picker_too_big [of probas label thres] picker_negative [of probas label thres] by metis
  with True show ?thesis by blast
next
  case False
  then have v1: "\<not> (\<exists>r \<in> set probas. \<exists>x \<in> set r. fgt x (Num 1))"
    and v2: "\<not> (\<exists>r \<in> set probas. \<exists>x \<in> set r. flt x (Num 0))" by blast+
  have "picker label probas thres \<noteq> Inl (ValueError msg)" for msg
  proof (cases "np_where (\<lambda>x. fgt x thres) probas = []")
    case True
    then show ?thesis by (simp add: picker_no_candidate [OF v1 v2])
  next
    case False
    obtain L k where lk: "label (picker_mask probas thres) = (L, k)"
      by (cases "label (picker_mask probas thres)")
    show ?thesis
      by (simp add: picker_candidates [where label = label, OF v1 v2 False lk])
  qed
  with False show ?thesis by blast
qed

lemma picker_error_early:
  assumes "\<exists>r \<in> set probas. \<exists>x \<in> set r. fgt x (Num 1) \<or> flt x (Num 0)"
  shows "picker label' probas thres = picker label probas thres"
proof (cases "\<exists>r \<in> set probas. \<exists>x \<in> set r. fgt x (Num 1)")
  case True
  then show ?thesis by (simp add: picker_too_big)
next
  case False
  with assms have "\<exists>r \<in> set probas. \<exists>x \<in> set r. flt x (Num 0)" by blast
  with False show ?thesis by (simp add: picker_negative)
qed

text \<open>
  C6. \<^verbatim>\<open>xcorr2\<close> fails exactly when the kernel has more rows or more columns than the
  signal, and \<^verbatim>\<open>picker\<close> fails with a ValueError exactly when some probability is
  strictly above 1 or strictly below 0. The checks come first: the failure of \<^verbatim>\<open>xcorr2\<close>
  is the same whatever the two arrays hold (no entry is read), and the failure of
  \<^verbatim>\<open>picker\<close> is the same whatever the labelling is (it is not called).
\<close>

theorem input_contract_errors:
  "((\<exists>e. xcorr2 signal kern centered_p = Inl e) \<longleftrightarrow>
      fst (shape kern) > fst (shape signal) \<or> snd (shape kern) > snd (shape signal)) \<and>
   (fst (shape kern) > fst (shape signal) \<or> snd (shape kern) > snd (shape signal) \<longrightarrow>
      (\<forall>d d'. xcorr2 (signal\<lparr>data := d\<rparr>) (kern\<lparr>data := d'\<rparr>) centered_p
         = Inl (ValueError ''cannot have kernel bigger than signal''))) \<and>
   ((\<exists>msg. picker label probas thres = Inl (ValueError msg)) \<longleftrightarrow>
      (\<exists>r \<in> set probas. \<exists>x \<in> set r. fgt x (Num 1) \<or> flt x (Num 0))) \<and>
   ((\<exists>r \<in> set probas. \<exists>x \<in> set r. fgt x (Num 1) \<or> flt x (Num 0)) \<longrightarrow>
      (\<forall>label'. picker label' probas thres = picker label probas thres))"
  using xcorr2_error_iff [of signal kern centered_p] xcorr2_error_early [of signal kern]
    picker_error_iff [of label probas thres] picker_error_early [of probas _ thres label]
  by blast

theorem input_contract_errors_witness:
  "xcorr2 \<lparr>shape = (1, 1), data = [[Num 1]]\<rparr> \<lparr>shape = (2, 1), data = [[Num 1], [Num 1]]\<rparr> True
     = Inl (ValueError ''cannot have kernel bigger than signal'') \<and>
   (\<exists>msg. picker label4 [[Num (1 / 2), Num (3 / 2)]] (Num (4 / 5)) = Inl (ValueError msg)) \<and>
   picker (\<lambda>m. ([], 0)) [[Num (1 / 2), Num (3 / 2)]] (Num (4 / 5))
     = picker label4 [[Num (1 / 2), Num (3 / 2)]] (Num (4 / 5))"
proof -
  let ?S = "\<lparr>shape = (1, 1), data = [[Num 1]]\<rparr>" and ?K = "\<lparr>shape = (2, 1), data = [[Num 1], [Num 1]]\<rparr>"
  have big: "fst (shape ?K) > fst (shape ?S) \<or> snd (shape ?K) > snd (shape ?S)" by simp
  have bad: "\<exists>r \<in> set [[Num (1 / 2), Num (3 / 2)]]. \<exists>x \<in> set r. fgt x (Num 1) \<or> flt x (Num 0)"
    by (simp add: fgt_def)
  note t = input_contract_errors [of ?S ?K True label4 "[[Num (1 / 2), Num (3 / 2)]]" "Num (4 / 5)"]
  from t big have "xcorr2 (?S\<lparr>data := [[Num 1]]\<rparr>) (?K\<lparr>data := [[Num 1], [Num 1]]\<rparr>) True
     = Inl (ValueError ''cannot have kernel bigger than signal'')" by blast
  moreover from t bad
  have "\<exists>msg. picker label4 [[Num (1 / 2), Num (3 / 2)]] (Num (4 / 5)) = Inl (ValueError msg)"
    by blast
  moreover from t bad
  have "picker (\<lambda>m. ([], 0)) [[Num (1 / 2), Num (3 / 2)]] (Num (4 / 5))
     = picker label4 [[Num (1 / 2), Num (3 / 2)]] (Num (4 / 5))" by blast
  ultimately show ?thesis by simp
qed

section \<open>One blob and two lone candidates\<close>

lemma picker_mask_covers:
  assumes "(i, j) \<in> set (np_where (\<lambda>x. fgt x thres) probas)"
  shows "i < length (picker_mask probas thres) \<and> j < length (picker_mask probas thres ! i)"
proof -
  let ?raw = "np_where (\<lambda>x. fgt x thres) probas"
  let ?I = "py_max (map fst ?raw)" and ?J = "py_max (map snd ?raw)"
  let ?z = "replicate (?I + 1) (replicate (?J + 1) False)"
  have b: "i < length ?z \<and> j < length (?z ! i)" if "(i, j) \<in> set ?raw" for i j
  proof -
    from that have "i \<in> set (map fst ?raw)" "j \<in> set (map snd ?raw)" by force+
    then have "i \<le> ?I" "j \<le> ?J" by (simp_all add: py_max_ge)
    then show ?thesis by (simp del: replicate_Suc)
  qed
  then have bound: "\<forall>(i, j) \<in> set ?raw. i < length ?z \<and> j < length (?z ! i)" by blast
  have m: "picker_mask probas thres = foldl (\<lambda>m (i, j). set2 m i j True) ?z ?raw"
    by (simp del: replicate_Suc add: picker_mask_def candidate_mask_def Let_def)
  from foldl_set2_True [OF bound]
  have len: "map length (picker_mask probas thres) = map length ?z"
    unfolding m by blast
  have l: "length (picker_mask probas thres) = length ?z" using len by (metis length_map)
  from b [OF assms] have i: "i < length ?z" and j: "j < length (?z ! i)" by blast+
  from i l have i': "i < length (picker_mask probas thres)" by simp
  from length_nth_eq [OF len i'] j show ?thesis using i' by simp
qed

lemma set_foreground_picker_mask:
  assumes "np_where (\<lambda>x. fgt x thres) probas \<noteq> []"
  shows "set (foreground (picker_mask probas thres)) = set (np_where (\<lambda>x. fgt x thres) probas)"
proof (intro set_eqI iffI)
  fix p assume "p \<in> set (foreground (picker_mask probas thres))"
  then obtain i j where p: "p = (i, j)" and i: "i < length (picker_mask probas thres)"
    and j: "j < length (picker_mask probas thres ! i)" and t: "picker_mask probas thres ! i ! j"
    by (auto simp: foreground_def set_np_where)
  from picker_mask_props [OF assms] i j t show "p \<in> set (np_where (\<lambda>x. fgt x thres) probas)"
    by (simp add: p set_np_where)
next
  fix p assume a: "p \<in> set (np_where (\<lambda>x. fgt x thres) probas)"
  obtain i j where p: "p = (i, j)" by (cases p)
  from picker_mask_covers [of i j thres probas] a p
  have i: "i < length (picker_mask probas thres)"
    and j: "j < length (picker_mask probas thres ! i)" by simp_all
  from picker_mask_props [OF assms] i j a p have "picker_mask probas thres ! i ! j"
    by (simp add: set_np_where)
  with i j show "p \<in> set (foreground (picker_mask probas thres))"
    by (simp add: p foreground_def set_np_where)
qed

lemma np_argmax_greatest:
  assumes "xs \<noteq> []" and "\<forall>x \<in> set xs. \<exists>r. x = Num r"
  shows "\<forall>x \<in> set xs. \<not> flt (xs ! np_argmax xs) x"
proof -
  let ?step = "\<lambda>(bi, bv) (i, v). if \<not> isnan bv \<and> (isnan v \<or> flt bv v) then (i, v) else (bi, bv)"
  have inv: "(\<exists>r. snd (foldl ?step (b, w) ps) = Num r) \<and>
       \<not> flt (snd (foldl ?step (b, w) ps)) w \<and>
       (\<forall>(i, x) \<in> set ps. \<not> flt (snd (foldl ?step (b, w) ps)) x) \<and>
       (foldl ?step (b, w) ps = (b, w) \<or> foldl ?step (b, w) ps \<in> set ps)"
    if "\<exists>r. w = Num r" "\<forall>(i, x) \<in> set ps. \<exists>r. x = Num r" for b w and ps :: "(nat \<times> fval) list"
    using that
  proof (induction ps arbitrary: b w)
    case Nil
    then show ?case by auto
  next
    case (Cons p ps)
    obtain i v where p: "p = (i, v)" by (cases p)
    from Cons.prems obtain rw rv where w: "w = Num rw" and v: "v = Num rv" by (auto simp: p)
    show ?case
    proof (cases "rw < rv")
      case True
      then have s: "foldl ?step (b, w) (p # ps) = foldl ?step (i, v) ps" by (simp add: p w v)
      from Cons.IH [of v i] Cons.prems v
      have ih: "(\<exists>r. snd (foldl ?step (i, v) ps) = Num r)"
        "\<not> flt (snd (foldl ?step (i, v) ps)) v"
        "\<forall>(j, x) \<in> set ps. \<not> flt (snd (foldl ?step (i, v) ps)) x"
        "foldl ?step (i, v) ps = (i, v) \<or> foldl ?step (i, v) ps \<in> set ps"
        by auto
      from ih(1) obtain r where r: "snd (foldl ?step (i, v) ps) = Num r" by blast
      with ih(2) True have "\<not> flt (snd (foldl ?step (i, v) ps)) w" by (simp add: w v)
      with ih show ?thesis unfolding s by (auto simp: p)
    next
      case False
      then have s: "foldl ?step (b, w) (p # ps) = foldl ?step (b, w) ps" by (simp add: p w v)
      from Cons.IH [of w b] Cons.prems
      have ih: "(\<exists>r. snd (foldl ?step (b, w) ps) = Num r)"
        "\<not> flt (snd (foldl ?step (b, w) ps)) w"
        "\<forall>(j, x) \<in> set ps. \<not> flt (snd (foldl ?step (b, w) ps)) x"
        "foldl ?step (b, w) ps = (b, w) \<or> foldl ?step (b, w) ps \<in> set ps"
        by auto
      from ih(1) obtain r where r: "snd (foldl ?step (b, w) ps) = Num r" by blast
      with ih(2) False have "\<not> flt (snd (foldl ?step (b, w) ps)) v" by (simp add: w v)
      with ih show ?thesis unfolding s by (auto simp: p)
    qed
  qed
  let ?ps = "zip [0..<length xs] xs"
  let ?res = "foldl ?step (0, hd xs) ?ps"
  have hd: "\<exists>r. hd xs = Num r" using assms by (cases xs) auto
  have all: "\<forall>(i, x) \<in> set ?ps. \<exists>r. x = Num r"
    using assms(2) by (auto dest: set_zip_rightD)
  note I = inv [OF hd all, of 0]
  have val: "snd ?res = xs ! fst ?res"
  proof -
    from I have "?res = (0, hd xs) \<or> ?res \<in> set ?ps" by blast
    then show ?thesis
    proof
      assume "?res = (0, hd xs)"
      then show ?thesis using assms(1) by (simp add: hd_conv_nth)
    next
      assume "?res \<in> set ?ps"
      then show ?thesis by (auto simp: set_zip)
    qed
  qed
  have "\<not> flt (snd ?res) x" if "x \<in> set xs" for x
  proof -
    from that obtain i where "i < length xs" "x = xs ! i" by (auto simp: in_set_conv_nth)
    then have "(i, x) \<in> set ?ps" by (force simp: set_zip)
    with I show ?thesis by blast
  qed
  then show ?thesis by (simp add: np_argmax_def val)
qed


lemma adj4_irrefl: "\<not> adj4 p p"
  by (simp add: adj4_def)

lemma set_positions: "set (positions A) = {(i, j). i < length A \<and> j < length (A ! i)}"
  by (simp add: positions_def set_np_where)

lemma foreground_positions: "set (foreground m) \<subseteq> set (positions m)"
  by (auto simp: foreground_def set_np_where set_positions)

lemma in_foreground_iff:
  "p \<in> set (positions m) \<Longrightarrow> p \<in> set (foreground m) \<longleftrightarrow> m ! fst p ! snd p"
  by (auto simp: foreground_def set_np_where set_positions)

lemma positions_same_shape: "map length L = map length m \<Longrightarrow> set (positions L) = set (positions m)"
proof -
  assume e: "map length L = map length m"
  then have l: "length L = length m" by (metis length_map)
  show ?thesis
    using length_nth_eq [OF e] l by (auto simp: set_positions)
qed

lemma in_neighbours:
  "(p, q) \<in> neighbours m \<longleftrightarrow> p \<in> set (foreground m) \<and> q \<in> set (foreground m) \<and> adj4 p q"
  by (auto simp: neighbours_def)

lemma isolated_reaches_itself:
  assumes "\<forall>q \<in> set (foreground m). \<not> adj4 p q" and "(p, q) \<in> (neighbours m)\<^sup>*"
  shows "q = p"
  using assms(2)
proof (cases rule: converse_rtranclE)
  case base
  then show ?thesis by simp
next
  case (step y)
  with assms(1) show ?thesis by (auto simp: in_neighbours)
qed

lemma map_filter_single:
  "distinct xs \<Longrightarrow> x \<in> set xs \<Longrightarrow> f x = Some v \<Longrightarrow> (\<forall>y \<in> set xs. y \<noteq> x \<longrightarrow> f y = None) \<Longrightarrow>
     List.map_filter f xs = [v]"
proof (induction xs)
  case Nil
  then show ?case by simp
next
  case (Cons z zs)
  show ?case
  proof (cases "z = x")
    case True
    with Cons.prems have "\<forall>y \<in> set zs. f y = None" by auto
    then have "List.map_filter f zs = []" by (induction zs) (simp_all add: List.map_filter_simps)
    with True Cons.prems show ?thesis by (simp add: List.map_filter_simps)
  next
    case False
    with Cons show ?thesis by (auto simp: List.map_filter_simps)
  qed
qed

lemma unit_interval_Num: "fle (Num 0) x \<and> fle x (Num 1) \<Longrightarrow> \<exists>r. x = Num r"
  by (cases x) simp_all


text \<open>
  C5. Take a probability map with values in \<open>[0, 1]\<close> whose positions strictly above the
  threshold are two single positions \<open>p1\<close> and \<open>p2\<close>, neither of them next to any other
  candidate, and a blob of three positions joined by 4-connectivity: \<open>b\<close> next to both
  \<open>a\<close> and \<open>c\<close> (of three joined positions one is next to the two others). With a
  labelling of the connected components as scipy's, \<^verbatim>\<open>picker\<close> returns exactly one
  coordinate: a position of the blob where the probability is greatest in the blob. The
  two single positions are dropped.
\<close>

theorem picker_keeps_blob_maximum:
  assumes valid: "\<forall>r \<in> set probas. \<forall>x \<in> set r. fle (Num 0) x \<and> fle x (Num 1)"
    and cands: "set (np_where (\<lambda>x. fgt x thres) probas) = {p1, p2, a, b, c}"
    and dist: "distinct [p1, p2, a, b, c]"
    and blob: "adj4 a b" "adj4 b c"
    and iso1: "\<forall>q \<in> {p2, a, b, c}. \<not> adj4 p1 q"
    and iso2: "\<forall>q \<in> {p1, a, b, c}. \<not> adj4 p2 q"
    and lab: "labels_components (picker_mask probas thres) (label (picker_mask probas thres))"
  shows "\<exists>m. picker label probas thres = Inr (Coords [m]) \<and> m \<in> {a, b, c} \<and>
           (\<forall>q \<in> {a, b, c}. \<not> flt (probas ! fst m ! snd m) (probas ! fst q ! snd q))"
proof -
  let ?m = "picker_mask probas thres"
  let ?F = "{p1, p2, a, b, c}"
  let ?N = "neighbours ?m"
  let ?pr = "\<lambda>(i, j). probas ! i ! j"
  obtain L k where lk: "label ?m = (L, k)" by (cases "label ?m")
  have v1: "\<not> (\<exists>r \<in> set probas. \<exists>x \<in> set r. fgt x (Num 1))"
    and v2: "\<not> (\<exists>r \<in> set probas. \<exists>x \<in> set r. flt x (Num 0))"
    using valid unit_interval_valid by blast+
  have ne: "np_where (\<lambda>x. fgt x thres) probas \<noteq> []"
    using cands by auto
  have F: "set (foreground ?m) = ?F"
    using set_foreground_picker_mask [OF ne] cands by simp
  from lab lk have shp: "map length L = map length ?m"
    and fgl: "\<forall>p \<in> set (positions ?m). label_of L p \<noteq> 0 \<longleftrightarrow> ?m ! fst p ! snd p"
    and bnd: "\<forall>p \<in> set (positions ?m). label_of L p \<le> k"
    and sur: "\<forall>l \<in> {1..k}. \<exists>p \<in> set (positions ?m). label_of L p = l"
    and con: "\<forall>p \<in> ?F. \<forall>q \<in> ?F. label_of L p = label_of L q \<longleftrightarrow> (p, q) \<in> ?N\<^sup>*"
    unfolding labels_components_def labels_foreground_def F by simp_all
  have Fpos: "?F \<subseteq> set (positions ?m)" using foreground_positions [of ?m] F by simp
  have nz: "label_of L p \<noteq> 0 \<longleftrightarrow> p \<in> ?F" if "p \<in> set (positions ?m)" for p
    using fgl that in_foreground_iff [OF that] F by simp
  have "(a, b) \<in> ?N" "(b, c) \<in> ?N" using blob by (simp_all add: in_neighbours F)
  then have "(a, b) \<in> ?N\<^sup>*" "(b, c) \<in> ?N\<^sup>*" by blast+
  with con have lab_b: "label_of L b = label_of L a" and lab_c: "label_of L c = label_of L a"
    by simp_all
  have i1: "\<forall>q \<in> set (foreground ?m). \<not> adj4 p1 q"
    and i2: "\<forall>q \<in> set (foreground ?m). \<not> adj4 p2 q"
    using iso1 iso2 adj4_irrefl by (auto simp: F)
  have conn: "(p, q) \<in> ?N\<^sup>*" if "label_of L p = label_of L q" "p \<in> ?F" "q \<in> ?F" for p q
    using con that by blast
  have l12: "label_of L p1 \<noteq> label_of L p2"
  proof
    assume "label_of L p1 = label_of L p2"
    then have "(p1, p2) \<in> ?N\<^sup>*" by (rule conn) simp_all
    from isolated_reaches_itself [OF i1 this] dist show False by simp
  qed
  have l1a: "label_of L p1 \<noteq> label_of L a"
  proof
    assume "label_of L p1 = label_of L a"
    then have "(p1, a) \<in> ?N\<^sup>*" by (rule conn) simp_all
    from isolated_reaches_itself [OF i1 this] dist show False by simp
  qed
  have l2a: "label_of L p2 \<noteq> label_of L a"
  proof
    assume "label_of L p2 = label_of L a"
    then have "(p2, a) \<in> ?N\<^sup>*" by (rule conn) simp_all
    from isolated_reaches_itself [OF i2 this] dist show False by simp
  qed
  let ?S = "{label_of L p1, label_of L p2, label_of L a}"
  have labels: "label_of L p \<in> ?S" if "p \<in> ?F" for p
    using that lab_b lab_c by auto
  have "?S \<subseteq> {1..k}"
    using nz bnd Fpos by (auto simp: Suc_le_eq)
  moreover have "{1..k} \<subseteq> ?S"
  proof
    fix l assume l: "l \<in> {1..k}"
    with sur obtain p where p: "p \<in> set (positions ?m)" "label_of L p = l" by blast
    with l nz [OF p(1)] have "p \<in> ?F" by simp
    from labels [OF this] p show "l \<in> ?S" by simp
  qed
  ultimately have S: "?S = {1..k}" by blast
  have "card ?S = 3" using l12 l1a l2a by simp
  with S have k: "k = 3" by simp
  have comp: "set (np_where (\<lambda>l. l = ff + 1) L) = {p \<in> ?F. label_of L p = ff + 1}" for ff
  proof -
    have "set (np_where (\<lambda>l. l = ff + 1) L) = {p \<in> set (positions L). label_of L p = ff + 1}"
      by (auto simp: set_np_where set_positions label_of_def)
    also have "\<dots> = {p \<in> set (positions ?m). label_of L p = ff + 1}"
      by (simp add: positions_same_shape [OF shp])
    also have "\<dots> = {p \<in> ?F. label_of L p = ff + 1}"
    proof (intro set_eqI iffI)
      fix p assume "p \<in> {p \<in> set (positions ?m). label_of L p = ff + 1}"
      then have p: "p \<in> set (positions ?m)" "label_of L p = ff + 1" by simp_all
      then have "label_of L p \<noteq> 0" by simp
      with nz [OF p(1)] p(2) show "p \<in> {p \<in> ?F. label_of L p = ff + 1}" by simp
    next
      fix p assume "p \<in> {p \<in> ?F. label_of L p = ff + 1}"
      with Fpos show "p \<in> {p \<in> set (positions ?m). label_of L p = ff + 1}" by blast
    qed
    finally show ?thesis .
  qed
  have single: "pick_label probas ?m L ff = None"
    if "{p \<in> ?F. label_of L p = ff + 1} = {p}" for ff p
  proof -
    have "card (set (np_where (\<lambda>l. l = ff + 1) L)) = 1" unfolding comp that by simp
    then have "length (np_where (\<lambda>l. l = ff + 1) L) = 1"
      unfolding distinct_card [OF distinct_np_where] .
    then show ?thesis unfolding pick_label_def Let_def by simp
  qed
  let ?fa = "label_of L a - 1"
  let ?c = "np_where (\<lambda>l. l = ?fa + 1) L"
  have "a \<in> set (positions ?m)" using Fpos by simp
  from nz [OF this] have "label_of L a \<noteq> 0" by simp
  then have la1: "?fa + 1 = label_of L a" by simp
  have "set ?c = {p \<in> ?F. label_of L p = ?fa + 1}" by (rule comp)
  also have "\<dots> = {a, b, c}"
    unfolding la1 using lab_b lab_c l1a l2a by auto
  finally have setc: "set ?c = {a, b, c}" .
  have "card (set ?c) = 3" unfolding setc using dist by simp
  then have lenc: "length ?c = 3"
    unfolding distinct_card [OF distinct_np_where] .
  have allc: "filter (\<lambda>(i, j). ?m ! i ! j) ?c = ?c"
  proof (rule filter_True, clarify)
    fix i j assume "(i, j) \<in> set ?c"
    then have "(i, j) \<in> set (foreground ?m)" using setc F by auto
    then show "?m ! i ! j" by (simp add: foreground_def set_np_where)
  qed
  let ?xs = "map ?pr ?c"
  let ?mx = "?c ! np_argmax ?xs"
  have blobpick: "pick_label probas ?m L ?fa = Some ?mx"
    unfolding pick_label_def Let_def allc lenc by simp
  have xs_ne: "?xs \<noteq> []" using lenc by auto
  have am: "np_argmax ?xs < length ?c" using np_argmax_less [OF xs_ne] by simp
  then have mx_in: "?mx \<in> {a, b, c}" using setc nth_mem by blast
  have num: "\<forall>x \<in> set ?xs. \<exists>r. x = Num r"
  proof
    fix x assume "x \<in> set ?xs"
    then obtain i j where ij: "(i, j) \<in> set ?c" "x = probas ! i ! j" by auto
    then have "(i, j) \<in> set (np_where (\<lambda>x. fgt x thres) probas)" using setc cands by auto
    then have "i < length probas" "j < length (probas ! i)" by (simp_all add: set_np_where)
    then have "probas ! i \<in> set probas" "probas ! i ! j \<in> set (probas ! i)" by simp_all
    with valid ij(2) show "\<exists>r. x = Num r" using unit_interval_Num by blast
  qed
  have greatest: "\<not> flt (probas ! fst ?mx ! snd ?mx) (probas ! fst q ! snd q)" if "q \<in> {a, b, c}" for q
  proof -
    from that setc have "?pr q \<in> set ?xs" by (metis image_eqI set_map)
    with np_argmax_greatest [OF xs_ne num] have "\<not> flt (?xs ! np_argmax ?xs) (?pr q)" by blast
    then show ?thesis using am by (simp add: case_prod_beta)
  qed
  have "label_of L a \<in> ?S" by simp
  then have "label_of L a \<in> {1..k}" unfolding S .
  then have fa3: "?fa \<in> set [0..<k]" by auto
  have others: "pick_label probas ?m L ff = None" if ff: "ff \<in> set [0..<k]" "ff \<noteq> ?fa" for ff
  proof -
    from ff(1) have "ff + 1 \<in> {1..k}" by simp
    then have "ff + 1 \<in> ?S" unfolding S .
    moreover from ff(2) la1 have "ff + 1 \<noteq> label_of L a" by arith
    ultimately have "ff + 1 = label_of L p1 \<or> ff + 1 = label_of L p2" by blast
    then show ?thesis
    proof
      assume e: "ff + 1 = label_of L p1"
      have "{p \<in> ?F. label_of L p = ff + 1} = {p1}"
        unfolding e using l12 l1a lab_b lab_c by auto
      then show ?thesis by (rule single)
    next
      assume e: "ff + 1 = label_of L p2"
      have "{p \<in> ?F. label_of L p = ff + 1} = {p2}"
        unfolding e using l12 l2a lab_b lab_c by auto
      then show ?thesis by (rule single)
    qed
  qed
  have "List.map_filter (pick_label probas ?m L) [0..<k] = [?mx]"
  proof (rule map_filter_single [where f = "pick_label probas ?m L" and x = ?fa])
    show "distinct [0..<k]" by simp
    show "?fa \<in> set [0..<k]" by (rule fa3)
    show "pick_label probas ?m L ?fa = Some ?mx" by (rule blobpick)
    show "\<forall>y \<in> set [0..<k]. y \<noteq> ?fa \<longrightarrow> pick_label probas ?m L y = None"
      using others by blast
  qed
  moreover have "picker label probas thres =
      Inr (Coords (List.map_filter (pick_label probas ?m L) [0..<k]))"
    using picker_candidates [where label = label, OF v1 v2 ne lk] shp by simp
  ultimately have "picker label probas thres = Inr (Coords [?mx])" by simp
  with mx_in greatest show ?thesis by blast
qed

theorem picker_keeps_blob_maximum_witness:
  "picker label4
     [[Num (9 / 10), Num (17 / 20), Num 0, Num (19 / 20)],
      [Num 1, Num 0, Num 0, Num 0],
      [Num (1 / 10), Num (1 / 5), Num (9 / 10), Num (3 / 10)]] (Num (4 / 5))
     = Inr (Coords [(1, 0)]) \<and>
   set (np_where (\<lambda>x. fgt x (Num (4 / 5)))
     [[Num (9 / 10), Num (17 / 20), Num 0, Num (19 / 20)],
      [Num 1, Num 0, Num 0, Num 0],
      [Num (1 / 10), Num (1 / 5), Num (9 / 10), Num (3 / 10)]])
     = {(0, 3), (2, 2), (0, 1), (0, 0), (1, 0)} \<and>
   adj4 (0, 1) (0, 0) \<and> adj4 (0, 0) (1, 0) \<and>
   labels_components
     (picker_mask [[Num (9 / 10), Num (17 / 20), Num 0, Num (19 / 20)],
      [Num 1, Num 0, Num 0, Num 0],
      [Num (1 / 10), Num (1 / 5), Num (9 / 10), Num (3 / 10)]] (Num (4 / 5)))
     (label4 (picker_mask [[Num (9 / 10), Num (17 / 20), Num 0, Num (19 / 20)],
      [Num 1, Num 0, Num 0, Num 0],
      [Num (1 / 10), Num (1 / 5), Num (9 / 10), Num (3 / 10)]] (Num (4 / 5))))"
proof -
  let ?P = "[[Num (9 / 10), Num (17 / 20), Num 0, Num (19 / 20)],
      [Num 1, Num 0, Num 0, Num 0],
      [Num (1 / 10), Num (1 / 5), Num (9 / 10), Num (3 / 10)]]"
  let ?t = "Num (4 / 5)"
  let ?M = "[[True, True, False, True], [True, False, False, False], [False, False, True, False]]"
  let ?L = "[[1, 1, 0, 2], [1, 0, 0, 0], [0, 0, 3, 0::nat]]"
  let ?N = "{((0, 0), (0, 1)), ((0, 0), (1, 0)), ((0, 1), (0, 0)), ((1, 0), (0::nat, 0::nat))}"
  have valid: "\<forall>r \<in> set ?P. \<forall>x \<in> set r. fle (Num 0) x \<and> fle x (Num 1)" by simp
  have raw: "np_where (\<lambda>x. fgt x ?t) ?P = [(0, 0), (0, 1), (0, 3), (1, 0), (2, 2)]" by code_simp
  have cands: "set (np_where (\<lambda>x. fgt x ?t) ?P) = {(0, 3), (2, 2), (0, 1), (0, 0), (1, 0)}"
    unfolding raw by auto
  have dist: "distinct [(0, 3), (2, 2), (0, 1), (0, 0), (1::nat, 0::nat)]" by simp
  have blob: "adj4 (0, 1) (0, 0)" "adj4 (0, 0) (1, 0)" by (simp_all add: adj4_def)
  have iso1: "\<forall>q \<in> {(2, 2), (0, 1), (0, 0), (1, 0)}. \<not> adj4 (0, 3) q" by (simp add: adj4_def)
  have iso2: "\<forall>q \<in> {(0, 3), (0, 1), (0, 0), (1, 0)}. \<not> adj4 (2, 2) q" by (simp add: adj4_def)
  have m: "picker_mask ?P ?t = ?M" by code_simp
  have l4: "label4 ?M = (?L, 3)" by code_simp
  have fg: "foreground ?M = [(0, 0), (0, 1), (0, 3), (1, 0), (2, 2)]" by code_simp
  have lf: "labels_foreground ?M (?L, 3)" by code_simp
  have bnd: "\<forall>p \<in> set (positions ?M). label_of (fst (?L, 3::nat)) p \<le> snd (?L, 3::nat)" by code_simp
  have sur: "\<forall>l \<in> {1..snd (?L, 3::nat)}. \<exists>p \<in> set (positions ?M). label_of (fst (?L, 3::nat)) p = l"
    by code_simp
  have "set (filter (\<lambda>(p, q). adj4 p q) (List.product (foreground ?M) (foreground ?M))) = ?N"
    by code_simp
  then have N: "neighbours ?M = ?N" by (simp only: neighbours_def)
  let ?B = "{(0::nat, 0::nat), (0, 1), (1, 0)}"
  have step: "p \<in> ?B \<and> q \<in> ?B" if "(p, q) \<in> ?N" for p q using that by auto
  have fwd: "p = q \<or> (p \<in> ?B \<and> q \<in> ?B)" if "(p, q) \<in> ?N\<^sup>*" for p q
    using that
  proof (induction rule: rtrancl_induct)
    case base
    show ?case by simp
  next
    case (step y z)
    from step.IH \<open>(y, z) \<in> ?N\<close> show ?case by auto
  qed
  have s: "((0::nat, 0::nat), (0::nat, 1::nat)) \<in> ?N\<^sup>*" "((0::nat, 1::nat), (0::nat, 0::nat)) \<in> ?N\<^sup>*"
    "((0::nat, 0::nat), (1::nat, 0::nat)) \<in> ?N\<^sup>*" "((1::nat, 0::nat), (0::nat, 0::nat)) \<in> ?N\<^sup>*" by blast+
  from s have s2: "((0::nat, 1::nat), (1::nat, 0::nat)) \<in> ?N\<^sup>*" "((1::nat, 0::nat), (0::nat, 1::nat)) \<in> ?N\<^sup>*"
    by (meson rtrancl_trans)+
  have bwd: "(p, q) \<in> ?N\<^sup>*" if "p \<in> ?B" "q \<in> ?B" for p q
    using that s s2 by auto
  have char: "(p, q) \<in> ?N\<^sup>* \<longleftrightarrow> p = q \<or> (p \<in> ?B \<and> q \<in> ?B)" for p q
    using fwd [of p q] bwd [of p q] by blast
  have "\<forall>p \<in> set (foreground ?M). \<forall>q \<in> set (foreground ?M).
        label_of (fst (?L, 3::nat)) p = label_of (fst (?L, 3::nat)) q \<longleftrightarrow> p = q \<or> (p \<in> ?B \<and> q \<in> ?B)"
    by code_simp
  then have con: "\<forall>p \<in> set (foreground ?M). \<forall>q \<in> set (foreground ?M).
        label_of (fst (?L, 3::nat)) p = label_of (fst (?L, 3::nat)) q \<longleftrightarrow> (p, q) \<in> (neighbours ?M)\<^sup>*"
    unfolding N char .
  have lab: "labels_components (picker_mask ?P ?t) (label4 (picker_mask ?P ?t))"
    unfolding m l4 labels_components_def using lf bnd sur con by blast
  from picker_keeps_blob_maximum [where label = label4, OF valid cands dist blob iso1 iso2 lab]
  obtain mx where r: "picker label4 ?P ?t = Inr (Coords [mx])"
    and mx: "mx \<in> {(0, 1), (0, 0), (1, 0)}"
    and g: "\<forall>q \<in> {(0, 1), (0, 0), (1, 0)}. \<not> flt (?P ! fst mx ! snd mx) (?P ! fst q ! snd q)"
    by blast
  have "mx = (1, 0)"
    using mx g by auto
  with r cands blob lab show ?thesis by blast
qed

section \<open>Shapes and border of the cross-correlation\<close>

lemma wf_ndarray_nth:
  "wf_ndarray x \<longleftrightarrow> length (data x) = fst (shape x) \<and>
     (\<forall>i < fst (shape x). length (data x ! i) = snd (shape x))"
  by (auto simp: wf_ndarray_def all_set_conv_all_nth)

lemma holds_full: "holds (full sh v) sh (\<lambda>i j. v)"
  by (simp add: holds_def full_def wf_ndarray_nth)

lemma holds_scale: "holds x sh f \<Longrightarrow> holds (scale k x) sh (\<lambda>i j. fmul k (f i j))"
  by (simp add: holds_def scale_def wf_ndarray_nth)

lemma holds_add2:
  "holds x sh f \<Longrightarrow> holds y sh g \<Longrightarrow> holds (add2 x y) sh (\<lambda>i j. fadd (f i j) (g i j))"
  by (simp add: holds_def add2_def wf_ndarray_nth)

lemma holds_get_slice:
  assumes "holds x sh f" "snd rs \<le> fst sh" "snd cs \<le> snd sh"
  shows "holds (get_slice x rs cs) (snd rs - fst rs, snd cs - fst cs)
           (\<lambda>i j. f (fst rs + i) (fst cs + j))"
  using assms by (simp add: holds_def get_slice_def wf_ndarray_nth)

lemma holds_set_slice:
  assumes "holds x sh f" "holds v (snd rs - fst rs, snd cs - fst cs) g"
  shows "holds (set_slice x rs cs v) sh
           (\<lambda>i j. if fst rs \<le> i \<and> i < snd rs \<and> fst cs \<le> j \<and> j < snd cs
                  then g (i - fst rs) (j - fst cs) else f i j)"
  using assms by (auto simp: holds_def set_slice_def wf_ndarray_nth)

lemma holds_cong:
  "holds x sh f \<Longrightarrow> (\<And>i j. i < fst sh \<Longrightarrow> j < snd sh \<Longrightarrow> f i j = g i j) \<Longrightarrow> holds x sh g"
  by (simp add: holds_def)


lemma holds_wf: "wf_ndarray x \<Longrightarrow> holds x (shape x) (\<lambda>i j. data x ! i ! j)"
  by (simp add: holds_def)

lemma holds_foldl:
  assumes "holds out sh (E a)"
    and "\<And>out a x. x \<in> set xs \<Longrightarrow> holds out sh (E a) \<Longrightarrow> holds (T out x) sh (E (U a x))"
  shows "holds (foldl T out xs) sh (E (foldl U a xs))"
  using assms by (induction xs arbitrary: out a) simp_all

lemma foldl_pointwise:
  "foldl (\<lambda>a x. (\<lambda>i j. g x (a i j) i j)) a xs = (\<lambda>i j. foldl (\<lambda>acc x. g x acc i j) (a i j) xs)"
  by (induction xs arbitrary: a) simp_all

lemma slice_bound_nat: "k \<le> n \<Longrightarrow> slice_bound n (int k) = k"
  by (simp add: slice_bound_def)

lemma slice_bound_le: "slice_bound n k \<le> n"
proof (cases "k < 0")
  case True
  then have "nat (max (k + int n) 0) \<le> n" by linarith
  with True show ?thesis by (simp only: slice_bound_def if_True)
next
  case False
  then have "nat (min k (int n)) \<le> n" by linarith
  with False show ?thesis by (simp only: slice_bound_def if_False)
qed

lemma holds_window:
  assumes wf: "wf_ndarray signal"
    and sh: "shape signal = (Ms, Ns)" "shape kern = (Mk, Nk)"
    and le: "Mk \<le> Ms" "Nk \<le> Ns" and k: "ki < Mk" "kj < Nk"
  shows "holds (window signal kern ki kj) (Ms - Mk + 1, Ns - Nk + 1)
           (\<lambda>i j. data signal ! (ki + i) ! (kj + j))"
proof -
  have r: "int Ms - int Mk + 1 + int ki = int (Ms - Mk + 1 + ki)"
    and c: "int Ns - int Nk + 1 + int kj = int (Ns - Nk + 1 + kj)"
    using le by simp_all
  have rb: "Ms - Mk + 1 + ki \<le> Ms" and cb: "Ns - Nk + 1 + kj \<le> Ns" using le k by simp_all
  have kb: "ki \<le> Ms" "kj \<le> Ns" using le k by simp_all
  have sr: "slice_bound Ms (int Ms - int Mk + 1 + int ki) = Ms - Mk + 1 + ki"
    unfolding r by (rule slice_bound_nat [OF rb])
  have sc: "slice_bound Ns (int Ns - int Nk + 1 + int kj) = Ns - Nk + 1 + kj"
    unfolding c by (rule slice_bound_nat [OF cb])
  have w: "window signal kern ki kj =
     get_slice signal (ki, Ms - Mk + 1 + ki) (kj, Ns - Nk + 1 + kj)"
    unfolding window_def sh Let_def py_slice_def fst_conv snd_conv sr sc
      slice_bound_nat [OF kb(1)] slice_bound_nat [OF kb(2)] ..
  have "holds (get_slice signal (ki, Ms - Mk + 1 + ki) (kj, Ns - Nk + 1 + kj))
          (snd (ki, Ms - Mk + 1 + ki) - fst (ki, Ms - Mk + 1 + ki),
           snd (kj, Ns - Nk + 1 + kj) - fst (kj, Ns - Nk + 1 + kj))
          (\<lambda>i j. data signal ! (fst (ki, Ms - Mk + 1 + ki) + i) ! (fst (kj, Ns - Nk + 1 + kj) + j))"
  proof (rule holds_get_slice)
    show "holds signal (Ms, Ns) (\<lambda>i j. data signal ! i ! j)"
      using holds_wf [OF wf] by (simp only: sh)
    show "snd (ki, Ms - Mk + 1 + ki) \<le> fst (Ms, Ns)" using rb by (simp only: fst_conv snd_conv)
    show "snd (kj, Ns - Nk + 1 + kj) \<le> snd (Ms, Ns)" using cb by (simp only: fst_conv snd_conv)
  qed
  then show ?thesis by (simp add: w)
qed

lemma acc_rows_xcorr_at:
  "foldl (acc_row signal kern) (\<lambda>i j. Num 0) [0..<fst (shape kern)] = xcorr_at signal kern"
proof -
  have e: "acc_row signal kern = (\<lambda>a ki. (\<lambda>i j. foldl (\<lambda>acc kj.
         fadd acc (fmul (data kern ! ki ! kj) (data signal ! (ki + i) ! (kj + j))))
       (a i j) [0..<snd (shape kern)]))"
    unfolding acc_row_def acc_entry_def
    by (intro ext) (simp add: foldl_pointwise [where g = "\<lambda>kj acc i j. fadd acc (fmul (data kern ! ki ! kj) (data signal ! (ki + i) ! (kj + j)))" for ki])
  show ?thesis
    unfolding e xcorr_at_def
    by (intro ext) (simp add: foldl_pointwise [where g = "\<lambda>ki acc i j. foldl (\<lambda>acc kj.
         fadd acc (fmul (data kern ! ki ! kj) (data signal ! (ki + i) ! (kj + j))))
       acc [0..<snd (shape kern)]"])
qed


lemma xcorr2_valid:
  assumes wf: "wf_ndarray signal"
    and sh: "shape signal = (Ms, Ns)" "shape kern = (Mk, Nk)"
    and le: "Mk \<le> Ms" "Nk \<le> Ns"
  shows "\<exists>out. xcorr2 signal kern False = Inr out \<and>
           holds out (Ms - Mk + 1, Ns - Nk + 1) (xcorr_at signal kern)"
proof -
  let ?sh = "(Ms - Mk + 1, Ns - Nk + 1)"
  let ?inner = "\<lambda>ki out kj. add2 out (scale (data kern ! ki ! kj) (window signal kern ki kj))"
  let ?outer = "\<lambda>out ki. foldl (?inner ki) out [0..<Nk]"
  have inner: "holds (?inner ki out kj) ?sh (acc_entry signal kern ki a kj)"
    if "ki < Mk" "kj < Nk" "holds out ?sh a" for ki kj out a
    unfolding acc_entry_def
    by (intro holds_add2 holds_scale that holds_window [OF wf sh le])
  have outer: "holds (?outer out ki) ?sh (acc_row signal kern a ki)"
    if ki: "ki \<in> set [0..<Mk]" and h: "holds out ?sh a" for ki out a
    unfolding acc_row_def sh snd_conv
  proof (rule holds_foldl [where E = "\<lambda>a. a"])
    show "holds out ?sh a" by (rule h)
  next
    fix out' a' kj assume "kj \<in> set [0..<Nk]" "holds out' ?sh a'"
    with ki show "holds (?inner ki out' kj) ?sh (acc_entry signal kern ki a' kj)"
      by (intro inner) simp_all
  qed
  have eq: "foldl (acc_row signal kern) (\<lambda>i j. Num 0) [0..<Mk] = xcorr_at signal kern"
    using acc_rows_xcorr_at [of signal kern] by (simp only: sh fst_conv)
  have "holds (foldl ?outer (full ?sh (Num 0)) [0..<Mk]) ?sh
          (foldl (acc_row signal kern) (\<lambda>i j. Num 0) [0..<Mk])"
    by (intro holds_foldl [where E = "\<lambda>a. a"] holds_full outer)
  then have "holds (foldl ?outer (full ?sh (Num 0)) [0..<Mk]) ?sh (xcorr_at signal kern)"
    by (simp only: eq)
  moreover have "nat (int Ms - int Mk + 1) = Ms - Mk + 1" "nat (int Ns - int Nk + 1) = Ns - Nk + 1"
    using le by linarith+
  ultimately show ?thesis
    using le by (simp add: xcorr2_def sh Let_def del: of_nat_diff)
qed

lemma foldl_const: "foldl (\<lambda>s x. s) s xs = s"
  by (induction xs) simp_all

lemma xcorr_at_empty:
  "fst (shape kern) = 0 \<or> snd (shape kern) = 0 \<Longrightarrow> xcorr_at signal kern a b = Num 0"
  by (auto simp: xcorr_at_def foldl_const)

lemma xcorr2_centered:
  assumes wf: "wf_ndarray signal"
    and sh: "shape signal = (Ms, Ns)" "shape kern = (Mk, Nk)"
    and le: "Mk \<le> Ms" "Nk \<le> Ns"
    and rs: "rs = py_slice Ms ((int Mk - 1) div 2) (int Ms - (int Mk - 1 - (int Mk - 1) div 2))"
    and cs: "cs = py_slice Ns ((int Nk - 1) div 2) (int Ns - (int Nk - 1 - (int Nk - 1) div 2))"
  shows "\<exists>out. xcorr2 signal kern True = Inr out \<and>
           holds out (Ms, Ns)
             (\<lambda>i j. if fst rs \<le> i \<and> i < snd rs \<and> fst cs \<le> j \<and> j < snd cs
                    then xcorr_at signal kern (i - fst rs) (j - fst cs) else NaN)"
proof -
  let ?R = "\<lambda>i j. fst rs \<le> i \<and> i < snd rs \<and> fst cs \<le> j \<and> j < snd cs"
  let ?E = "\<lambda>a i j. if ?R i j then a (i - fst rs) (j - fst cs) else NaN"
  let ?rsh = "(snd rs - fst rs, snd cs - fst cs)"
  let ?inner = "\<lambda>ki out kj. set_slice out rs cs
     (add2 (get_slice out rs cs) (scale (data kern ! ki ! kj) (window signal kern ki kj)))"
  let ?outer = "\<lambda>out ki. foldl (?inner ki) out [0..<Nk]"
  let ?out0 = "set_slice (full (Ms, Ns) NaN) rs cs (full ?rsh (Num 0))"
  have bnd: "snd rs \<le> Ms" "snd cs \<le> Ns"
    by (simp_all add: rs cs py_slice_def slice_bound_le)
  have x: "xcorr2 signal kern True = Inr (foldl ?outer ?out0 [0..<Mk])"
    using le by (simp add: xcorr2_def sh Let_def rs cs)
  have init: "holds ?out0 (Ms, Ns) (?E (\<lambda>i j. Num 0))"
    by (rule holds_cong, rule holds_set_slice, rule holds_full, rule holds_full) simp
  show ?thesis
  proof (cases "1 \<le> Mk \<and> 1 \<le> Nk")
    case True
    have "(int Mk - 1) div 2 \<ge> 0" "(int Mk - 1) div 2 \<le> int Mk - 1"
      "(int Nk - 1) div 2 \<ge> 0" "(int Nk - 1) div 2 \<le> int Nk - 1"
      using True by simp_all
    then have "int (snd rs) - int (fst rs) = int Ms - int Mk + 1"
      "int (snd cs) - int (fst cs) = int Ns - int Nk + 1"
      using True le unfolding rs cs py_slice_def slice_bound_def fst_conv snd_conv
      by (simp_all add: min_def)
    then have rsh: "?rsh = (Ms - Mk + 1, Ns - Nk + 1)"
      using le by (simp, linarith)
    have inner: "holds (?inner ki out kj) (Ms, Ns) (?E (acc_entry signal kern ki a kj))"
      if k: "ki < Mk" "kj < Nk" and h: "holds out (Ms, Ns) (?E a)" for ki kj out a
    proof -
      have g: "holds (get_slice out rs cs) ?rsh a"
        by (rule holds_cong, rule holds_get_slice [OF h]) (use bnd in auto)
      have w: "holds (scale (data kern ! ki ! kj) (window signal kern ki kj)) ?rsh
                 (\<lambda>i j. fmul (data kern ! ki ! kj) (data signal ! (ki + i) ! (kj + j)))"
        unfolding rsh by (intro holds_scale holds_window [OF wf sh le k])
      show ?thesis
        by (rule holds_cong, rule holds_set_slice [OF h holds_add2 [OF g w]])
          (simp add: acc_entry_def)
    qed
    have outer: "holds (?outer out ki) (Ms, Ns) (?E (acc_row signal kern a ki))"
      if ki: "ki \<in> set [0..<Mk]" and h: "holds out (Ms, Ns) (?E a)" for ki out a
      unfolding acc_row_def sh snd_conv
    proof (rule holds_foldl [where E = ?E])
      show "holds out (Ms, Ns) (?E a)" by (rule h)
    next
      fix out' a' kj assume "kj \<in> set [0..<Nk]" "holds out' (Ms, Ns) (?E a')"
      with ki show "holds (?inner ki out' kj) (Ms, Ns) (?E (acc_entry signal kern ki a' kj))"
        by (intro inner) simp_all
    qed
    have eq: "foldl (acc_row signal kern) (\<lambda>i j. Num 0) [0..<Mk] = xcorr_at signal kern"
      using acc_rows_xcorr_at [of signal kern] by (simp only: sh fst_conv)
    have "holds (foldl ?outer ?out0 [0..<Mk]) (Ms, Ns)
            (?E (foldl (acc_row signal kern) (\<lambda>i j. Num 0) [0..<Mk]))"
      by (intro holds_foldl [where E = ?E] init outer)
    then have "holds (foldl ?outer ?out0 [0..<Mk]) (Ms, Ns) (?E (xcorr_at signal kern))"
      by (simp only: eq)
    with x show ?thesis by simp
  next
    case False
    then have e: "Mk = 0 \<or> Nk = 0" by auto
    then have f: "foldl ?outer ?out0 [0..<Mk] = ?out0"
      by (auto simp: foldl_const)
    have "xcorr_at signal kern a b = Num 0" for a b
      using e by (intro xcorr_at_empty) (simp add: sh)
    then have z: "xcorr_at signal kern = (\<lambda>a b. Num 0)" by (intro ext)
    have "holds ?out0 (Ms, Ns) (?E (xcorr_at signal kern))"
      unfolding z by (rule init)
    then show ?thesis unfolding x f by blast
  qed
qed


lemma centered_slice_bounds:
  assumes "1 \<le> Mk" "Mk \<le> Ms"
    and "rs = py_slice Ms ((int Mk - 1) div 2) (int Ms - (int Mk - 1 - (int Mk - 1) div 2))"
  shows "int (fst rs) = (int Mk - 1) div 2"
    and "int (snd rs) = int Ms - (int Mk - 1 - (int Mk - 1) div 2)"
proof -
  have "(int Mk - 1) div 2 \<ge> 0" "(int Mk - 1) div 2 \<le> int Mk - 1"
    using assms(1) by simp_all
  then show "int (fst rs) = (int Mk - 1) div 2"
    and "int (snd rs) = int Ms - (int Mk - 1 - (int Mk - 1) div 2)"
    using assms(1,2) unfolding assms(3) py_slice_def slice_bound_def fst_conv snd_conv
    by (simp_all add: min_def)
qed

text \<open>
  C2, amended. For a signal of shape \<open>Ms \<times> Ns\<close> and a kernel of shape \<open>Mk \<times> Nk\<close> with
  \<open>Mk \<le> Ms\<close> and \<open>Nk \<le> Ns\<close>: without centering, \<^verbatim>\<open>xcorr2\<close> returns an array of shape
  \<open>(Ms - Mk + 1) \<times> (Ns - Nk + 1)\<close> holding the correlation values; with centering it
  returns an array of shape \<open>Ms \<times> Ns\<close> and, when the kernel has at least one row and one
  column, the entries with row in \<open>[(Mk-1)//2, Ms-(Mk-1-(Mk-1)//2))\<close> and column in
  \<open>[(Nk-1)//2, Ns-(Nk-1-(Nk-1)//2))\<close> hold the correlation values and all others are
  not-a-number.
\<close>

theorem xcorr2_shapes_and_border:
  assumes "wf_ndarray signal" and "wf_ndarray kern"
    and "shape signal = (Ms, Ns)" and "shape kern = (Mk, Nk)"
    and "Mk \<le> Ms" and "Nk \<le> Ns"
  shows "\<exists>v c.
     xcorr2 signal kern False = Inr v \<and> wf_ndarray v \<and> shape v = (Ms - Mk + 1, Ns - Nk + 1) \<and>
     (\<forall>a < Ms - Mk + 1. \<forall>b < Ns - Nk + 1. data v ! a ! b = xcorr_at signal kern a b) \<and>
     xcorr2 signal kern True = Inr c \<and> wf_ndarray c \<and> shape c = (Ms, Ns) \<and>
     (1 \<le> Mk \<and> 1 \<le> Nk \<longrightarrow>
       (\<forall>i < Ms. \<forall>j < Ns. data c ! i ! j =
          (if (int Mk - 1) div 2 \<le> int i \<and> int i < int Ms - (int Mk - 1 - (int Mk - 1) div 2) \<and>
              (int Nk - 1) div 2 \<le> int j \<and> int j < int Ns - (int Nk - 1 - (int Nk - 1) div 2)
           then xcorr_at signal kern (i - nat ((int Mk - 1) div 2)) (j - nat ((int Nk - 1) div 2))
           else NaN)))"
proof -
  define rs where "rs = py_slice Ms ((int Mk - 1) div 2) (int Ms - (int Mk - 1 - (int Mk - 1) div 2))"
  define cs where "cs = py_slice Ns ((int Nk - 1) div 2) (int Ns - (int Nk - 1 - (int Nk - 1) div 2))"
  from xcorr2_valid [OF assms(1,3,4,5,6)] obtain v where
    v: "xcorr2 signal kern False = Inr v"
    and hv: "holds v (Ms - Mk + 1, Ns - Nk + 1) (xcorr_at signal kern)" by blast
  from xcorr2_centered [OF assms(1,3,4,5,6) rs_def cs_def] obtain c where
    c: "xcorr2 signal kern True = Inr c"
    and hc: "holds c (Ms, Ns)
             (\<lambda>i j. if fst rs \<le> i \<and> i < snd rs \<and> fst cs \<le> j \<and> j < snd cs
                    then xcorr_at signal kern (i - fst rs) (j - fst cs) else NaN)" by blast
  have region: "data c ! i ! j =
          (if (int Mk - 1) div 2 \<le> int i \<and> int i < int Ms - (int Mk - 1 - (int Mk - 1) div 2) \<and>
              (int Nk - 1) div 2 \<le> int j \<and> int j < int Ns - (int Nk - 1 - (int Nk - 1) div 2)
           then xcorr_at signal kern (i - nat ((int Mk - 1) div 2)) (j - nat ((int Nk - 1) div 2))
           else NaN)"
    if k: "1 \<le> Mk" "1 \<le> Nk" and ij: "i < Ms" "j < Ns" for i j
  proof -
    note r = centered_slice_bounds [OF k(1) assms(5) rs_def]
    note q = centered_slice_bounds [OF k(2) assms(6) cs_def]
    have "fst rs \<le> i \<longleftrightarrow> (int Mk - 1) div 2 \<le> int i"
      "i < snd rs \<longleftrightarrow> int i < int Ms - (int Mk - 1 - (int Mk - 1) div 2)"
      "fst cs \<le> j \<longleftrightarrow> (int Nk - 1) div 2 \<le> int j"
      "j < snd cs \<longleftrightarrow> int j < int Ns - (int Nk - 1 - (int Nk - 1) div 2)"
      using r q by linarith+
    moreover have "nat ((int Mk - 1) div 2) = fst rs" "nat ((int Nk - 1) div 2) = fst cs"
      using r(1) q(1) by linarith+
    moreover have "data c ! i ! j = (if fst rs \<le> i \<and> i < snd rs \<and> fst cs \<le> j \<and> j < snd cs
                    then xcorr_at signal kern (i - fst rs) (j - fst cs) else NaN)"
      using hc ij by (simp add: holds_def)
    ultimately show ?thesis by simp
  qed
  from hv hc v c region show ?thesis
    by (auto simp: holds_def)
qed


theorem xcorr2_shapes_and_border_witness:
  "wf_ndarray \<lparr>shape = (3, 4), data = [[Num 1, Num 2, Num 3, Num 4], [Num 5, Num 6, Num 7, Num 8],
       [Num 9, Num 10, Num 11, Num 12]]\<rparr> \<and>
   wf_ndarray \<lparr>shape = (2, 2), data = [[Num 1, Num 0], [Num 0, Num 1]]\<rparr> \<and>
   xcorr2 \<lparr>shape = (3, 4), data = [[Num 1, Num 2, Num 3, Num 4], [Num 5, Num 6, Num 7, Num 8],
       [Num 9, Num 10, Num 11, Num 12]]\<rparr>
     \<lparr>shape = (2, 2), data = [[Num 1, Num 0], [Num 0, Num 1]]\<rparr> False
     = Inr \<lparr>shape = (2, 3), data = [[Num 7, Num 9, Num 11], [Num 15, Num 17, Num 19]]\<rparr> \<and>
   xcorr2 \<lparr>shape = (3, 4), data = [[Num 1, Num 2, Num 3, Num 4], [Num 5, Num 6, Num 7, Num 8],
       [Num 9, Num 10, Num 11, Num 12]]\<rparr>
     \<lparr>shape = (2, 2), data = [[Num 1, Num 0], [Num 0, Num 1]]\<rparr> True
     = Inr \<lparr>shape = (3, 4), data = [[Num 7, Num 9, Num 11, NaN], [Num 15, Num 17, Num 19, NaN],
         [NaN, NaN, NaN, NaN]]\<rparr> \<and>
   (\<exists>v c. xcorr2 \<lparr>shape = (3, 4), data = [[Num 1, Num 2, Num 3, Num 4], [Num 5, Num 6, Num 7, Num 8],
       [Num 9, Num 10, Num 11, Num 12]]\<rparr>
       \<lparr>shape = (2, 2), data = [[Num 1, Num 0], [Num 0, Num 1]]\<rparr> False = Inr v \<and>
     shape v = (2, 3) \<and>
     xcorr2 \<lparr>shape = (3, 4), data = [[Num 1, Num 2, Num 3, Num 4], [Num 5, Num 6, Num 7, Num 8],
       [Num 9, Num 10, Num 11, Num 12]]\<rparr>
       \<lparr>shape = (2, 2), data = [[Num 1, Num 0], [Num 0, Num 1]]\<rparr> True = Inr c \<and>
     shape c = (3, 4) \<and> data c ! 1 ! 3 = NaN)"
proof -
  let ?S = "\<lparr>shape = (3, 4), data = [[Num 1, Num 2, Num 3, Num 4], [Num 5, Num 6, Num 7, Num 8],
       [Num 9, Num 10, Num 11, Num 12]]\<rparr>"
  let ?K = "\<lparr>shape = (2, 2), data = [[Num 1, Num 0], [Num 0, Num 1]]\<rparr>"
  have wS: "wf_ndarray ?S" and wK: "wf_ndarray ?K" by (simp_all add: wf_ndarray_def)
  have sS: "shape ?S = (3, 4)" and sK: "shape ?K = (2, 2)" by simp_all
  have le: "(2::nat) \<le> 3" "(2::nat) \<le> 4" by simp_all
  from xcorr2_shapes_and_border [OF wS wK sS sK le] obtain v c where
    v: "xcorr2 ?S ?K False = Inr v" "shape v = (3 - 2 + 1, 4 - 2 + 1)"
    and c: "xcorr2 ?S ?K True = Inr c" "shape c = (3, 4)"
    and r: "(1::nat) \<le> 2 \<and> (1::nat) \<le> 2 \<longrightarrow>
       (\<forall>i < 3. \<forall>j < 4. data c ! i ! j =
          (if (int 2 - 1) div 2 \<le> int i \<and> int i < int 3 - (int 2 - 1 - (int 2 - 1) div 2) \<and>
              (int 2 - 1) div 2 \<le> int j \<and> int j < int 4 - (int 2 - 1 - (int 2 - 1) div 2)
           then xcorr_at ?S ?K (i - nat ((int 2 - 1) div 2)) (j - nat ((int 2 - 1) div 2))
           else NaN))"
    by blast
  from r have "data c ! 1 ! 3 = NaN" by simp
  with v c have e: "\<exists>v c. xcorr2 ?S ?K False = Inr v \<and> shape v = (2, 3) \<and>
      xcorr2 ?S ?K True = Inr c \<and> shape c = (3, 4) \<and> data c ! 1 ! 3 = NaN"
    by simp
  have "xcorr2 ?S ?K False
     = Inr \<lparr>shape = (2, 3), data = [[Num 7, Num 9, Num 11], [Num 15, Num 17, Num 19]]\<rparr>"
    by code_simp
  moreover have "xcorr2 ?S ?K True
     = Inr \<lparr>shape = (3, 4), data = [[Num 7, Num 9, Num 11, NaN], [Num 15, Num 17, Num 19, NaN],
         [NaN, NaN, NaN, NaN]]\<rparr>"
    by code_simp
  ultimately show ?thesis using wS wK e by blast
qed

text \<open>
  C2 as stated fails for a kernel with no row: \<open>(Mk - 1) // 2\<close> is \<open>-1\<close>, and as the start
  of a Python slice \<open>-1\<close> means the last row. With a signal of shape \<open>2 \<times> 1\<close> and a kernel
  of shape \<open>0 \<times> 1\<close>, the entry \<open>(0, 0)\<close> has its row in \<open>[-1, 2)\<close> and its column in
  \<open>[0, 1)\<close>, and is not-a-number.
\<close>

theorem xcorr2_empty_kernel_counterexample:
  "wf_ndarray \<lparr>shape = (2, 1), data = [[Num 1], [Num 1]]\<rparr> \<and>
   wf_ndarray \<lparr>shape = (0, 1), data = []\<rparr> \<and>
   xcorr2 \<lparr>shape = (2, 1), data = [[Num 1], [Num 1]]\<rparr> \<lparr>shape = (0, 1), data = []\<rparr> True
     = Inr \<lparr>shape = (2, 1), data = [[NaN], [Num 0]]\<rparr> \<and>
   (int 0 - 1) div 2 \<le> int 0 \<and> int 0 < int 2 - (int 0 - 1 - (int 0 - 1) div 2) \<and>
   (int 1 - 1) div 2 \<le> int 0 \<and> int 0 < int 1 - (int 1 - 1 - (int 1 - 1) div 2) \<and>
   data \<lparr>shape = (2, 1), data = [[NaN], [Num 0]]\<rparr> ! 0 ! 0 = NaN"
proof -
  have "xcorr2 \<lparr>shape = (2, 1), data = [[Num 1], [Num 1]]\<rparr> \<lparr>shape = (0, 1), data = []\<rparr> True
     = Inr \<lparr>shape = (2, 1), data = [[NaN], [Num 0]]\<rparr>"
    by code_simp
  then show ?thesis by (simp add: wf_ndarray_def)
qed

section \<open>Detrending leaves poor bins neutral\<close>

lemma square_assign_col: "square n A \<Longrightarrow> square n (assign_col A rs i vs)"
  unfolding assign_col_def
  by (rule foldl_invariant [where P = "square n"]) (auto simp: square_set2)

lemma square_assign_row: "square n A \<Longrightarrow> square n (assign_row A i cs vs)"
  unfolding assign_row_def
  by (rule foldl_invariant [where P = "square n"]) (auto simp: square_set2)

lemma zip_map_self: "zip xs (map f xs) = map (\<lambda>x. (x, f x)) xs"
  by (induction xs) simp_all

lemma nth_assign_col:
  assumes "square n A" "i < n" "set rs \<subseteq> {..<n}"
  shows "assign_col A rs i (map f rs) ! r ! c = (if c = i \<and> r \<in> set rs then f r else A ! r ! c)"
  using assms(3)
proof (induction rs rule: rev_induct)
  case Nil
  show ?case by (simp add: assign_col_def)
next
  case (snoc x xs)
  have sq: "square n (assign_col A xs i (map f xs))"
    by (rule square_assign_col [OF assms(1)])
  have "assign_col A (xs @ [x]) i (map f (xs @ [x])) = set2 (assign_col A xs i (map f xs)) x i (f x)"
    by (simp add: assign_col_def zip_map_self)
  with snoc show ?case
    using set2_nth [OF sq _ assms(2), of x] by auto
qed

lemma nth_assign_row:
  assumes "square n A" "i < n" "set cs \<subseteq> {..<n}"
  shows "assign_row A i cs (map f cs) ! r ! c = (if r = i \<and> c \<in> set cs then f c else A ! r ! c)"
  using assms(3)
proof (induction cs rule: rev_induct)
  case Nil
  show ?case by (simp add: assign_row_def)
next
  case (snoc x xs)
  have sq: "square n (assign_row A i xs (map f xs))"
    by (rule square_assign_row [OF assms(1)])
  have "assign_row A i (xs @ [x]) (map f (xs @ [x])) = set2 (assign_row A i xs (map f xs)) i x (f x)"
    by (simp add: assign_row_def zip_map_self)
  with snoc show ?case
    using set2_nth [OF sq assms(2), of x] by auto
qed

lemma replicate_as_map: "replicate (length xs) v = map (\<lambda>_. v) xs"
  by (induction xs) simp_all

lemma refill_rows_props:
  assumes "square n D" "set poor \<subseteq> {..<n}"
  shows "square n (refill_rows n poor D) \<and>
         (\<forall>r < n. \<forall>c < n. refill_rows n poor D ! r ! c = (if r \<in> set poor then Num 1 else D ! r ! c))"
  using assms(2)
proof (induction poor rule: rev_induct)
  case Nil
  show ?case using assms(1) by (simp add: refill_rows_def)
next
  case (snoc b bs)
  let ?D = "refill_rows n bs D"
  from snoc have sq: "square n ?D"
    and v: "\<forall>r < n. \<forall>c < n. ?D ! r ! c = (if r \<in> set bs then Num 1 else D ! r ! c)" by auto
  from snoc.prems have b: "b < n" by simp
  have e: "refill_rows n (bs @ [b]) D = assign_row ?D b [0..<n] (map (\<lambda>_. Num 1) [0..<n])"
    using replicate_as_map [of "[0..<n]" "Num 1"] by (simp add: refill_rows_def)
  have a: "set [0..<n] \<subseteq> {..<n}" by auto
  show ?case
    unfolding e using v by (auto simp: square_assign_row [OF sq] nth_assign_row [OF sq b a])
qed

lemma refill_cols_props:
  assumes "square n D" "set poor \<subseteq> {..<n}"
  shows "square n (refill_cols n poor D) \<and>
         (\<forall>r < n. \<forall>c < n. refill_cols n poor D ! r ! c = (if c \<in> set poor then Num 1 else D ! r ! c))"
  using assms(2)
proof (induction poor rule: rev_induct)
  case Nil
  show ?case using assms(1) by (simp add: refill_cols_def)
next
  case (snoc b bs)
  let ?D = "refill_cols n bs D"
  from snoc have sq: "square n ?D"
    and v: "\<forall>r < n. \<forall>c < n. ?D ! r ! c = (if c \<in> set bs then Num 1 else D ! r ! c)" by auto
  from snoc.prems have b: "b < n" by simp
  have e: "refill_cols n (bs @ [b]) D = assign_col ?D [0..<n] b (map (\<lambda>_. Num 1) [0..<n])"
    using replicate_as_map [of "[0..<n]" "Num 1"] by (simp add: refill_cols_def)
  have a: "set [0..<n] \<subseteq> {..<n}" by auto
  show ?case
    unfolding e using v by (auto simp: square_assign_col [OF sq] nth_assign_col [OF sq b a])
qed

lemma square_map_map: "square n A \<Longrightarrow> square n (map (map f) A)"
  by (auto simp: square_def)

lemma square_scn_func: "square n A \<Longrightarrow> square n (scn_func A threshold)"
proof -
  assume sq: "square n A"
  have it: "square n (scn_iteration i1 i2 B)" if "square n B" for i1 i2 B
  proof -
    have "square n (foldl (scn_col i1 i2) B [0..<length B])"
      by (rule foldl_invariant [where P = "square n", OF that])
        (simp add: scn_col_def Let_def square_assign_col)
    then have 1: "square n (nan_to_zero (foldl (scn_col i1 i2) B [0..<length B]))"
      unfolding nan_to_zero_def by (rule square_map_map)
    have "square n (foldl (scn_row i1 i2) (nan_to_zero (foldl (scn_col i1 i2) B [0..<length B]))
            [0..<length B])"
      by (rule foldl_invariant [where P = "square n", OF 1])
        (simp add: scn_row_def Let_def square_assign_row)
    then show ?thesis
      unfolding scn_iteration_def Let_def nan_to_zero_def by (rule square_map_map)
  qed
  show ?thesis
    unfolding scn_func_def Let_def
    by (rule foldl_invariant [where P = "square n", OF sq]) (rule it)
qed

lemma square_despeckles: "square n A \<Longrightarrow> square n (fst (snd (despeckles A th2)))"
proof -
  assume sq: "square n A"
  then have n: "length A = n" by (simp add: square_def)
  have "clip_inv n (A, 0, [])" using sq by (simp add: clip_inv_def)
  then have "clip_inv n (despeckles_clip (despeckles_dist A) th2 n (A, 0, []))"
    by (rule despeckles_clip_inv)
  then show ?thesis
    by (auto simp: despeckles_def Let_def n clip_inv_def split: prod.splits)
qed

lemma square_div2:
  "square n A \<Longrightarrow> square n B \<Longrightarrow> square n (div2 A B)"
  by (auto simp: square_iff_nth div2_def)

lemma square_distance_law_matrix: "square n (distance_law_matrix n ys)"
  by (simp add: square_iff_nth distance_law_matrix_def)

lemma length_col_sums: "square n A \<Longrightarrow> length (col_sums A) = n"
  by (simp add: col_sums_def ncols_square)


lemma set_poor_indices:
  "square n A \<Longrightarrow>
     set (poor_indices A) = {b. b < n \<and> fle (col_sums A ! b) (threshold_vector A)}"
  by (auto simp: poor_indices_def length_col_sums)

lemma detrend_unfold:
  assumes sq: "square n A"
  shows "detrend smooth A =
     (let matscn = fst (snd (despeckles (scn_func A (threshold_vector A)) (Num 10)));
          y = map (\<lambda>x. if isnan x then Num 0 else x) (distance_law matscn)
      in if n < window_length
         then Inl (ValueError
           ''If mode is 'interp', window_length must be less than or equal to the size of x.'')
         else if length (smooth y) < n then Inl IndexError
         else Inr (refill_cols n (poor_indices A) (refill_rows n (poor_indices A)
                (neg_to_one (nan_to_one (div2 matscn (distance_law_matrix n (smooth y)))))),
              threshold_vector A))"
proof -
  have n: "length A = n" using sq by (simp add: square_def)
  have "square n (fst (snd (despeckles (scn_func A (threshold_vector A)) (Num 10))))"
    by (intro square_despeckles square_scn_func sq)
  then have "length (distance_law (fst (snd (despeckles (scn_func A (threshold_vector A)) (Num 10))))) = n"
    by (simp add: distance_law_map square_def)
  then show ?thesis
    by (simp add: detrend_def savgol_filter_def Let_def n)
qed

text \<open>
  C1, amended. For a square array of size \<open>n \<ge> 17\<close> (the window of the smoothing filter),
  \<^verbatim>\<open>detrend\<close> returns a pair: a square array of size \<open>n\<close> and the threshold, which is the
  median of the column sums of the input minus twice their standard deviation; and for
  every bin \<open>b\<close> whose column sum in the input is at or below the threshold, row \<open>b\<close> and
  column \<open>b\<close> of the returned array are 1.0 throughout. The smoothing is any function that
  keeps the length of its argument.
\<close>

theorem detrend_poor_bins_neutral:
  assumes "square n A" and "17 \<le> n" and "\<forall>y. length (smooth y) = length y"
  shows "\<exists>D. detrend smooth A =
             Inr (D, fsub (np_median (col_sums A)) (fmul (Num 2) (np_std (col_sums A)))) \<and>
           square n D \<and>
           col_sums A = map (\<lambda>b. np_sum (map (\<lambda>r. r ! b) A)) [0..<n] \<and>
           (\<forall>b < n. fle (col_sums A ! b)
                      (fsub (np_median (col_sums A)) (fmul (Num 2) (np_std (col_sums A)))) \<longrightarrow>
              (\<forall>k < n. D ! b ! k = Num 1 \<and> D ! k ! b = Num 1))"
proof -
  let ?m = "fst (snd (despeckles (scn_func A (threshold_vector A)) (Num 10)))"
  let ?y = "map (\<lambda>x. if isnan x then Num 0 else x) (distance_law ?m)"
  let ?X = "neg_to_one (nan_to_one (div2 ?m (distance_law_matrix n (smooth ?y))))"
  let ?D = "refill_cols n (poor_indices A) (refill_rows n (poor_indices A) ?X)"
  have sqm: "square n ?m" by (intro square_despeckles square_scn_func assms(1))
  have ly: "length ?y = n" using sqm by (simp add: distance_law_map square_def)
  have d: "detrend smooth A = Inr (?D, threshold_vector A)"
    using assms(2,3) ly by (simp add: detrend_unfold [OF assms(1)] Let_def window_length_def)
  have sqX: "square n ?X"
    unfolding neg_to_one_def nan_to_one_def
    by (intro square_map_map square_div2 sqm square_distance_law_matrix)
  have poor: "set (poor_indices A) \<subseteq> {..<n}"
    by (auto simp: set_poor_indices [OF assms(1)])
  note R = refill_rows_props [OF sqX poor]
  from R have sqR: "square n (refill_rows n (poor_indices A) ?X)" by blast
  note C = refill_cols_props [OF sqR poor]
  have ones: "?D ! b ! k = Num 1 \<and> ?D ! k ! b = Num 1"
    if "b < n" "fle (col_sums A ! b) (threshold_vector A)" "k < n" for b k
  proof -
    from that have "b \<in> set (poor_indices A)" by (simp add: set_poor_indices [OF assms(1)])
    with R C that show ?thesis by simp
  qed
  have cs: "col_sums A = map (\<lambda>b. np_sum (map (\<lambda>r. r ! b) A)) [0..<n]"
    by (simp add: col_sums_def ncols_square [OF assms(1)])
  show ?thesis
    using d C ones cs unfolding threshold_vector_def by blast
qed

text \<open>
  C1 as stated, for every square array, fails below the window of the filter: on a
  \<open>1 \<times> 1\<close> array the distance law has one entry, \<^verbatim>\<open>savgol_filter\<close> raises, and \<^verbatim>\<open>detrend\<close>
  returns nothing.
\<close>

theorem detrend_small_matrix_counterexample:
  "square 1 [[Num 1]] \<and>
   detrend (\<lambda>y. y) [[Num 1]] = Inl (ValueError
     ''If mode is 'interp', window_length must be less than or equal to the size of x.'')"
proof -
  have sq: "square 1 [[Num 1]]" by (simp add: square_def)
  show ?thesis
    using sq by (simp add: detrend_unfold [OF sq] Let_def window_length_def)
qed


theorem detrend_poor_bins_neutral_witness:
  "square 17 (replicate 17 (Num 0 # replicate 16 (Num 1))) \<and>
   col_sums (replicate 17 (Num 0 # replicate 16 (Num 1))) = Num 0 # replicate 16 (Num 17) \<and>
   (\<exists>D. detrend (\<lambda>y. y) (replicate 17 (Num 0 # replicate 16 (Num 1))) = Inr (D, Num 9) \<and>
        D ! 0 ! 5 = Num 1 \<and> D ! 5 ! 0 = Num 1)"
proof -
  let ?A = "replicate 17 (Num 0 # replicate 16 (Num 1))"
  have sq: "square 17 ?A" by (simp add: square_def)
  have cs: "col_sums ?A = Num 0 # replicate 16 (Num 17)" by code_simp
  have med: "np_median (Num 0 # replicate 16 (Num 17)) = Num 17" by code_simp
  have var: "np_mean (map (\<lambda>x. fmul (fsub x (np_mean (Num 0 # replicate 16 (Num 17))))
                                  (fsub x (np_mean (Num 0 # replicate 16 (Num 17)))))
               (Num 0 # replicate 16 (Num 17))) = Num 16" by code_simp
  have "sqrt 16 = 4" using real_sqrt_abs [of 4] by simp
  then have std: "np_std (Num 0 # replicate 16 (Num 17)) = Num 4"
    unfolding np_std_def Let_def var by simp
  have thr: "fsub (np_median (col_sums ?A)) (fmul (Num 2) (np_std (col_sums ?A))) = Num 9"
    by (simp add: cs med std fsub_def)
  have le: "(17::nat) \<le> 17" by simp
  have sm: "\<forall>y::fval list. length ((\<lambda>y. y) y) = length y" by simp
  from detrend_poor_bins_neutral [OF sq le sm] obtain D where
    d: "detrend (\<lambda>y. y) ?A = Inr (D, Num 9)"
    and p: "\<forall>b < 17. fle (col_sums ?A ! b) (Num 9) \<longrightarrow> (\<forall>k < 17. D ! b ! k = Num 1 \<and> D ! k ! b = Num 1)"
    unfolding thr by blast
  have "fle (col_sums ?A ! 0) (Num 9)" by (simp add: cs)
  with p have "D ! 0 ! 5 = Num 1 \<and> D ! 5 ! 0 = Num 1" by simp
  with d sq cs show ?thesis by blast
qed

section \<open>Running the normalisation twice\<close>

lemma scn_keep_eq:
  "scn_keep A threshold =
     map (\<lambda>i. if scn_active A threshold i then Num 1 else Num 0) [0..<length A]"
proof -
  have "scn_keep A threshold =
    foldl (\<lambda>keep i. keep[i := (if scn_active A threshold i then Num 1 else Num 0)])
       (replicate (length A) (Num 0)) [0..<length A]"
    unfolding scn_keep_def scn_active_def
    by (rule foldl_cong_set) simp
  then show ?thesis by (simp add: foldl_update_upt)
qed

lemma scn_indices:
  "filter (\<lambda>i. fgt (scn_keep A threshold ! i) (Num 0)) [0..<length A]
     = filter (scn_active A threshold) [0..<length A]"
  "filter (\<lambda>i. fle (scn_keep A threshold ! i) (Num 0)) [0..<length A]
     = filter (\<lambda>i. \<not> scn_active A threshold i) [0..<length A]"
  by (rule filter_cong, simp, simp add: scn_keep_eq fgt_def)+

lemma scn_col_nth:
  assumes "square n B" "i < n" "set indices1 \<subseteq> {..<n}" "set indices2 \<subseteq> {..<n}"
  shows "scn_col indices1 indices2 B i ! r ! c =
           (if c = i then col_pass_value indices1 indices2 B r c else B ! r ! c)"
proof -
  let ?s = "np_sum (map (\<lambda>r. B ! r ! i) indices1)"
  let ?B1 = "assign_col B indices1 i (map (\<lambda>r. fdiv (B ! r ! i) ?s) indices1)"
  have e: "scn_col indices1 indices2 B i = assign_col ?B1 indices2 i (map (\<lambda>_. Num 0) indices2)"
    by (simp add: scn_col_def Let_def replicate_as_map comp_def)
  have sq1: "square n ?B1" by (rule square_assign_col [OF assms(1)])
  show ?thesis
    unfolding e
    by (simp add: nth_assign_col [OF sq1 assms(2,4)] nth_assign_col [OF assms(1,2,3)]
        col_pass_value_def)
qed

lemma scn_row_nth:
  assumes "square n B" "i < n" "set indices1 \<subseteq> {..<n}" "set indices2 \<subseteq> {..<n}"
  shows "scn_row indices1 indices2 B i ! r ! c =
           (if r = i then row_pass_value indices1 indices2 B r c else B ! r ! c)"
proof -
  let ?s = "np_sum (map (\<lambda>c. B ! i ! c) indices1)"
  let ?B1 = "assign_row B i indices1 (map (\<lambda>c. fdiv (B ! i ! c) ?s) indices1)"
  have e: "scn_row indices1 indices2 B i = assign_row ?B1 i indices2 (map (\<lambda>_. Num 0) indices2)"
    by (simp add: scn_row_def Let_def replicate_as_map comp_def)
  have sq1: "square n ?B1" by (rule square_assign_row [OF assms(1)])
  show ?thesis
    unfolding e
    by (simp add: nth_assign_row [OF sq1 assms(2,4)] nth_assign_row [OF assms(1,2,3)]
        row_pass_value_def)
qed

lemma square_scn_col: "square n B \<Longrightarrow> square n (scn_col i1 i2 B i)"
  by (simp add: scn_col_def Let_def square_assign_col)

lemma square_scn_row: "square n B \<Longrightarrow> square n (scn_row i1 i2 B i)"
  by (simp add: scn_row_def Let_def square_assign_row)

lemma col_pass_upt:
  assumes sq: "square n A" and i1: "set indices1 \<subseteq> {..<n}" and i2: "set indices2 \<subseteq> {..<n}"
    and m: "m \<le> n"
  shows "square n (foldl (scn_col indices1 indices2) A [0..<m]) \<and>
         (\<forall>r c. foldl (scn_col indices1 indices2) A [0..<m] ! r ! c =
            (if c < m then col_pass_value indices1 indices2 A r c else A ! r ! c))"
  using m
proof (induction m)
  case 0
  show ?case using sq by simp
next
  case (Suc m)
  let ?B = "foldl (scn_col indices1 indices2) A [0..<m]"
  from Suc have sqB: "square n ?B"
    and v: "\<And>r c. ?B ! r ! c = (if c < m then col_pass_value indices1 indices2 A r c else A ! r ! c)"
    by auto
  from Suc.prems have mn: "m < n" by simp
  have col: "col_pass_value indices1 indices2 ?B r m = col_pass_value indices1 indices2 A r m" for r
    by (simp add: col_pass_value_def v)
  show ?case
    using scn_col_nth [OF sqB mn i1 i2] square_scn_col [OF sqB] col v
    by (auto simp: less_Suc_eq)
qed

lemma row_pass_upt:
  assumes sq: "square n A" and i1: "set indices1 \<subseteq> {..<n}" and i2: "set indices2 \<subseteq> {..<n}"
    and m: "m \<le> n"
  shows "square n (foldl (scn_row indices1 indices2) A [0..<m]) \<and>
         (\<forall>r c. foldl (scn_row indices1 indices2) A [0..<m] ! r ! c =
            (if r < m then row_pass_value indices1 indices2 A r c else A ! r ! c))"
  using m
proof (induction m)
  case 0
  show ?case using sq by simp
next
  case (Suc m)
  let ?B = "foldl (scn_row indices1 indices2) A [0..<m]"
  from Suc have sqB: "square n ?B"
    and v: "\<And>r c. ?B ! r ! c = (if r < m then row_pass_value indices1 indices2 A r c else A ! r ! c)"
    by auto
  from Suc.prems have mn: "m < n" by simp
  have meq: "map (\<lambda>c'. ?B ! m ! c') indices1 = map (\<lambda>c'. A ! m ! c') indices1"
    by (rule map_cong) (simp_all add: v)
  have row: "row_pass_value indices1 indices2 ?B m c = row_pass_value indices1 indices2 A m c" for c
    unfolding row_pass_value_def meq by (simp add: v)
  show ?case
    using scn_row_nth [OF sqB mn i1 i2] square_scn_row [OF sqB] row v
    by (auto simp: less_Suc_eq)
qed


lemma square_eqI:
  assumes "square n X" "square n Y" "\<And>r c. r < n \<Longrightarrow> c < n \<Longrightarrow> X ! r ! c = Y ! r ! c"
  shows "X = Y"
proof (rule nth_equalityI)
  show "length X = length Y" using assms(1,2) by (simp add: square_def)
next
  fix r assume "r < length X"
  then have r: "r < n" using assms(1) by (simp add: square_def)
  show "X ! r = Y ! r"
    by (rule nth_equalityI)
      (use r assms in \<open>simp_all add: square_iff_nth\<close>)
qed

lemma nan_to_zero_nth:
  "square n B \<Longrightarrow> r < n \<Longrightarrow> c < n \<Longrightarrow>
     nan_to_zero B ! r ! c = (if isnan (B ! r ! c) then Num 0 else B ! r ! c)"
  by (simp add: nan_to_zero_def square_iff_nth)

lemma square_nan_to_zero: "square n B \<Longrightarrow> square n (nan_to_zero B)"
  unfolding nan_to_zero_def by (rule square_map_map)

lemma foldl_fixed: "f A = A \<Longrightarrow> foldl (\<lambda>B _. f B) A xs = A"
  by (induction xs) simp_all

lemma scn_iteration_entries:
  assumes sq: "square n A" and i1: "set indices1 \<subseteq> {..<n}" and i2: "set indices2 \<subseteq> {..<n}"
  shows "scn_iteration indices1 indices2 A =
     (let A1 = map (\<lambda>r. map (\<lambda>c. nan0 (col_pass_value indices1 indices2 A r c)) [0..<n]) [0..<n]
      in map (\<lambda>r. map (\<lambda>c. nan0 (row_pass_value indices1 indices2 A1 r c)) [0..<n]) [0..<n])"
proof -
  let ?A1 = "map (\<lambda>r. map (\<lambda>c. nan0 (col_pass_value indices1 indices2 A r c)) [0..<n]) [0..<n]"
  have n: "length A = n" using sq by (simp add: square_def)
  note C = col_pass_upt [OF sq i1 i2 le_refl]
  have sq1: "square n ?A1" by (simp add: square_iff_nth)
  have c: "nan_to_zero (foldl (scn_col indices1 indices2) A [0..<n]) = ?A1"
  proof (rule square_eqI [OF _ sq1])
    from C have sqB: "square n (foldl (scn_col indices1 indices2) A [0..<n])" by blast
    then show "square n (nan_to_zero (foldl (scn_col indices1 indices2) A [0..<n]))"
      by (rule square_nan_to_zero)
    fix r c assume rc: "r < n" "c < n"
    from C rc have v: "foldl (scn_col indices1 indices2) A [0..<n] ! r ! c
        = col_pass_value indices1 indices2 A r c" by simp
    show "nan_to_zero (foldl (scn_col indices1 indices2) A [0..<n]) ! r ! c = ?A1 ! r ! c"
      unfolding nan_to_zero_nth [OF sqB rc] v using rc by (simp add: nan0_def)
  qed
  note R = row_pass_upt [OF sq1 i1 i2 le_refl]
  let ?A2 = "map (\<lambda>r. map (\<lambda>c. nan0 (row_pass_value indices1 indices2 ?A1 r c)) [0..<n]) [0..<n]"
  have sq2: "square n ?A2" by (simp add: square_iff_nth)
  have r: "nan_to_zero (foldl (scn_row indices1 indices2) ?A1 [0..<n]) = ?A2"
  proof (rule square_eqI [OF _ sq2])
    from R have sqB: "square n (foldl (scn_row indices1 indices2) ?A1 [0..<n])" by blast
    then show "square n (nan_to_zero (foldl (scn_row indices1 indices2) ?A1 [0..<n]))"
      by (rule square_nan_to_zero)
    fix r c assume rc: "r < n" "c < n"
    from R rc have v: "foldl (scn_row indices1 indices2) ?A1 [0..<n] ! r ! c
        = row_pass_value indices1 indices2 ?A1 r c" by simp
    show "nan_to_zero (foldl (scn_row indices1 indices2) ?A1 [0..<n]) ! r ! c = ?A2 ! r ! c"
      unfolding nan_to_zero_nth [OF sqB rc] v using rc by (simp add: nan0_def)
  qed
  show ?thesis
    unfolding scn_iteration_def Let_def n c r ..
qed

lemma scn_func_iterations:
  "scn_func A threshold =
     foldl (\<lambda>B _. scn_iteration (filter (scn_active A threshold) [0..<length A])
                     (filter (\<lambda>i. \<not> scn_active A threshold i) [0..<length A]) B)
       A [0..<n_iterations]"
  unfolding scn_func_def Let_def scn_indices ..

lemma foldl_settled: "f A = B \<Longrightarrow> f B = B \<Longrightarrow> foldl (\<lambda>B _. f B) A (x # xs) = B"
  by (simp add: foldl_fixed)

lemma scn_func_2_1: "scn_func [[Num 2]] (Num 1) = [[Num 1]]"
proof -
  have sq: "square 1 [[Num 2]]" "square 1 [[Num 1]]" by (simp_all add: square_def)
  have a: "scn_active [[Num 2]] (Num 1) 0" by (simp add: scn_active_def np_sum_def fgt_def)
  have i: "filter (scn_active [[Num 2]] (Num 1)) [0..<length [[Num 2]]] = [0]"
    "filter (\<lambda>i. \<not> scn_active [[Num 2]] (Num 1) i) [0..<length [[Num 2]]] = []"
    using a by simp_all
  have s: "set [0::nat] \<subseteq> {..<1}" "set ([]::nat list) \<subseteq> {..<1}" by simp_all
  have 1: "scn_iteration [0] [] [[Num 2]] = [[Num 1]]"
    unfolding scn_iteration_entries [OF sq(1) s]
    by (simp add: Let_def col_pass_value_def row_pass_value_def np_sum_def nan0_def)
  have 2: "scn_iteration [0] [] [[Num 1]] = [[Num 1]]"
    unfolding scn_iteration_entries [OF sq(2) s]
    by (simp add: Let_def col_pass_value_def row_pass_value_def np_sum_def nan0_def)
  have u: "[0..<n_iterations] = 0 # [1..<10]" by (simp add: n_iterations_def upt_rec)
  show ?thesis
    unfolding scn_func_iterations i u
    by (rule foldl_settled [where f = "scn_iteration [0] []", OF 1 2])
qed


lemma scn_func_1_1: "scn_func [[Num 1]] (Num 1) = [[Num 0]]"
proof -
  have sq: "square 1 [[Num 1]]" "square 1 [[Num 0]]" by (simp_all add: square_def)
  have a: "\<not> scn_active [[Num 1]] (Num 1) 0" by (simp add: scn_active_def np_sum_def fgt_def)
  have i: "filter (scn_active [[Num 1]] (Num 1)) [0..<length [[Num 1]]] = []"
    "filter (\<lambda>i. \<not> scn_active [[Num 1]] (Num 1) i) [0..<length [[Num 1]]] = [0]"
    using a by simp_all
  have s: "set ([]::nat list) \<subseteq> {..<1}" "set [0::nat] \<subseteq> {..<1}" by simp_all
  have 1: "scn_iteration [] [0] [[Num 1]] = [[Num 0]]"
    unfolding scn_iteration_entries [OF sq(1) s]
    by (simp add: Let_def col_pass_value_def row_pass_value_def np_sum_def nan0_def)
  have 2: "scn_iteration [] [0] [[Num 0]] = [[Num 0]]"
    unfolding scn_iteration_entries [OF sq(2) s]
    by (simp add: Let_def col_pass_value_def row_pass_value_def np_sum_def nan0_def)
  have u: "[0..<n_iterations] = 0 # [1..<10]" by (simp add: n_iterations_def upt_rec)
  show ?thesis
    unfolding scn_func_iterations i u
    by (rule foldl_settled [where f = "scn_iteration [] [0]", OF 1 2])
qed

text \<open>
  C9 as stated fails: the second run decides again which rows are active, from the row
  sums of the normalised array, which are 1. With threshold 1 the array \<open>[[2]]\<close> is
  normalised to \<open>[[1]]\<close>, whose only row is no longer above the threshold, and the second
  run returns \<open>[[0]]\<close>: the entry changes by 1.
\<close>

theorem scn_func_rerun_counterexample:
  "square 1 [[Num 2]] \<and>
   scn_func [[Num 2]] (Num 1) = [[Num 1]] \<and>
   scn_func (scn_func [[Num 2]] (Num 1)) (Num 1) = [[Num 0]]"
  by (simp add: scn_func_2_1 scn_func_1_1 square_def)


subsection \<open>Ten iterations need not converge\<close>

lemma two: "[0..<2] = [0, Suc 0]" by (simp add: upt_rec)

lemma scn_iteration_tri:
  assumes "0 < x" "x < 1"
  shows "scn_iteration [0, Suc 0] [] (tri x) = tri (x / (1 + 2 * x))"
proof -
  have sq: "square 2 (tri x)" by (simp add: square_def tri_def)
  have s: "set [0, Suc 0] \<subseteq> {..<2}" "set ([]::nat list) \<subseteq> {..<2}" by simp_all
  have c: "map (\<lambda>r. map (\<lambda>c. nan0 (col_pass_value [0, Suc 0] [] (tri x) r c)) [0..<2]) [0..<2]
      = [[Num 1, Num (x / (1 + x))], [Num 0, Num (1 / (1 + x))]]"
    using assms by (simp add: two col_pass_value_def np_sum_def nan0_def tri_def)
  have r: "map (\<lambda>r. map (\<lambda>c. nan0 (row_pass_value [0, Suc 0] []
       [[Num 1, Num (x / (1 + x))], [Num 0, Num (1 / (1 + x))]] r c)) [0..<2]) [0..<2]
      = tri (x / (1 + 2 * x))"
  proof -
    have p: "1 + x > 0" "1 + 2 * x > 0" using assms by simp_all
    have q: "1 + x \<noteq> 0" "1 + 2 * x \<noteq> 0" using p by simp_all
    have a: "1 + x / (1 + x) = (1 + 2 * x) / (1 + x)"
      using q by (simp add: field_simps)
    have e1: "1 / (1 + x / (1 + x)) = 1 - x / (1 + 2 * x)"
      unfolding a using q by (simp add: field_simps)
    have e2: "x / (1 + x) / (1 + x / (1 + x)) = x / (1 + 2 * x)"
      unfolding a using q by simp
    have n1: "1 + x / (1 + x) \<noteq> 0"
      unfolding a using q by simp
    have n2: "1 / (1 + x) \<noteq> 0" using q by simp
    have "map (\<lambda>r. map (\<lambda>c. nan0 (row_pass_value [0, Suc 0] []
       [[Num 1, Num (x / (1 + x))], [Num 0, Num (1 / (1 + x))]] r c)) [0..<2]) [0..<2]
      = [[Num (1 / (1 + x / (1 + x))), Num (x / (1 + x) / (1 + x / (1 + x)))], [Num 0, Num 1]]"
      using n1 n2 by (simp add: two row_pass_value_def np_sum_def nan0_def)
    then show ?thesis unfolding e1 e2 tri_def .
  qed
  show ?thesis
    unfolding scn_iteration_entries [OF sq s] Let_def c r ..
qed


lemma scn_iteration_tri_inverse:
  assumes "1 < y"
  shows "scn_iteration [0, Suc 0] [] (tri (1 / y)) = tri (1 / (y + 2))"
proof -
  have "(1 / y) / (1 + 2 * (1 / y)) = 1 / (y + 2)"
    using assms by (simp add: field_simps)
  with scn_iteration_tri [of "1 / y"] assms show ?thesis by simp
qed

lemma scn_iterations_tri:
  "1 < y \<Longrightarrow> foldl (\<lambda>B _. scn_iteration [0, Suc 0] [] B) (tri (1 / y)) xs
     = tri (1 / (y + 2 * real (length xs)))"
proof (induction xs arbitrary: y)
  case Nil
  show ?case by simp
next
  case (Cons x xs)
  from Cons.prems have "1 < y + 2" by simp
  from Cons.IH [OF this] show ?case
    by (simp add: scn_iteration_tri_inverse [OF Cons.prems] algebra_simps)
qed

lemma scn_active_tri: "filter (scn_active (tri x) (Num 0)) [0..<length (tri x)] = [0, Suc 0]"
  "filter (\<lambda>i. \<not> scn_active (tri x) (Num 0) i) [0..<length (tri x)] = []"
  by (simp_all add: tri_def two scn_active_def np_sum_def fgt_def)

lemma scn_func_tri:
  assumes "1 < y"
  shows "scn_func (tri (1 / y)) (Num 0) = tri (1 / (y + 20))"
  unfolding scn_func_iterations scn_active_tri
  using scn_iterations_tri [OF assms, of "[0..<n_iterations]"]
  by (simp add: n_iterations_def)

text \<open>
  Also with a threshold that keeps every row active, a second run can move the entries:
  on the array with rows \<open>[1, 1]\<close> and \<open>[0, 1]\<close> the entry \<open>(0, 1)\<close> is \<open>1/21\<close> after
  one run of ten iterations and \<open>1/41\<close> after a second one.
\<close>

lemma scn_func_slow_convergence:
  "scn_func [[Num 1, Num 1], [Num 0, Num 1]] (Num 0)
     = [[Num (20 / 21), Num (1 / 21)], [Num 0, Num 1]] \<and>
   scn_func [[Num (20 / 21), Num (1 / 21)], [Num 0, Num 1]] (Num 0)
     = [[Num (40 / 41), Num (1 / 41)], [Num 0, Num 1]]"
proof -
  let ?A = "[[Num 1, Num 1], [Num 0, Num 1]]"
  have sq: "square 2 ?A" by (simp add: square_def)
  have s: "set [0, Suc 0] \<subseteq> {..<2}" "set ([]::nat list) \<subseteq> {..<2}" by simp_all
  have a: "filter (scn_active ?A (Num 0)) [0..<length ?A] = [0, Suc 0]"
    "filter (\<lambda>i. \<not> scn_active ?A (Num 0) i) [0..<length ?A] = []"
    by (simp_all add: two scn_active_def np_sum_def fgt_def)
  have 1: "scn_iteration [0, Suc 0] [] ?A = tri (1 / 3)"
    unfolding scn_iteration_entries [OF sq s]
    by (simp add: Let_def two col_pass_value_def row_pass_value_def np_sum_def nan0_def tri_def)
  have u: "[0..<n_iterations] = 0 # [1..<10]" by (simp add: n_iterations_def upt_rec)
  have "scn_func ?A (Num 0) = tri (1 / (3 + 2 * real (length [1..<10::nat])))"
    unfolding scn_func_iterations a u
    using scn_iterations_tri [of 3 "[1..<10]"] by (simp add: 1)
  then have first: "scn_func ?A (Num 0) = [[Num (20 / 21), Num (1 / 21)], [Num 0, Num 1]]"
    by (simp add: tri_def)
  have t: "[[Num (20 / 21), Num (1 / 21)], [Num 0, Num 1]] = tri (1 / 21)"
    by (simp add: tri_def)
  have "scn_func (tri (1 / 21)) (Num 0) = tri (1 / (21 + 20))"
    by (rule scn_func_tri) simp
  then have second: "scn_func [[Num (20 / 21), Num (1 / 21)], [Num 0, Num 1]] (Num 0)
     = [[Num (40 / 41), Num (1 / 41)], [Num 0, Num 1]]"
    unfolding t by (simp add: tri_def)
  from first second show ?thesis by blast
qed

section \<open>A second run of the normalisation\<close>

subsection \<open>One iteration on real values\<close>

lemma nonneg_entry:
  "nonneg n B \<Longrightarrow> r < n \<Longrightarrow> c < n \<Longrightarrow> B ! r ! c = Num (entry B r c) \<and> 0 \<le> entry B r c"
proof -
  assume "nonneg n B" "r < n" "c < n"
  then obtain x where "0 \<le> x" "B ! r ! c = Num x"
    unfolding nonneg_def by blast
  then show ?thesis by (simp add: entry_def)
qed

lemma nonneg_square: "nonneg n B \<Longrightarrow> square n B"
  by (simp add: nonneg_def)

lemma np_sum_map_Num:
  assumes "\<And>x. x \<in> set xs \<Longrightarrow> f x = Num (g x)"
  shows "np_sum (map f xs) = Num (sum_list (map g xs))"
proof -
  have "foldl fadd (Num a) (map f xs) = Num (a + sum_list (map g xs))" for a
    using assms by (induction xs arbitrary: a) (simp_all add: add.assoc)
  from this [of 0] show ?thesis by (simp add: np_sum_def)
qed

lemma np_sum_map_Num_set:
  assumes "distinct xs" "\<And>x. x \<in> set xs \<Longrightarrow> f x = Num (g x)"
  shows "np_sum (map f xs) = Num (sum g (set xs))"
  using np_sum_map_Num [of xs f g] assms
  by (simp add: sum_list_distinct_conv_sum_set)

lemma nan0_fdiv:
  assumes "0 \<le> a" "a \<le> b"
  shows "nan0 (fdiv (Num a) (Num b)) = Num (a / b)"
proof (cases "b = 0")
  case True
  with assms have "a = 0" by simp
  with True show ?thesis by (simp add: nan0_def)
next
  case False
  then show ?thesis by (simp add: nan0_def)
qed

lemma col_pass_real:
  assumes nn: "nonneg n B" and d: "distinct S" and s: "set S \<subseteq> {..<n}"
    and i2: "set I2 = {..<n} - set S" and rc: "r < n" "c < n"
  shows "nan0 (col_pass_value S I2 B r c) = Num (col_norm (set S) (entry B) r c) \<and>
         0 \<le> col_norm (set S) (entry B) r c"
proof (cases "r \<in> set S")
  case False
  with rc i2 have "r \<in> set I2" by simp
  with False show ?thesis by (simp add: col_pass_value_def col_norm_def nan0_def)
next
  case True
  with i2 have ni: "r \<notin> set I2" by simp
  have e: "B ! r' ! c = Num (entry B r' c)" "0 \<le> entry B r' c" if "r' \<in> set S" for r'
    using nonneg_entry [OF nn _ rc(2), of r'] that s by auto
  have sm: "np_sum (map (\<lambda>r'. B ! r' ! c) S) = Num (\<Sum>r' \<in> set S. entry B r' c)"
    by (rule np_sum_map_Num_set [OF d]) (rule e(1))
  have le: "entry B r c \<le> (\<Sum>r' \<in> set S. entry B r' c)"
    by (rule member_le_sum [OF True]) (simp_all add: e(2))
  have nn': "0 \<le> (\<Sum>r' \<in> set S. entry B r' c)"
    by (rule sum_nonneg) (rule e(2))
  have "col_pass_value S I2 B r c = fdiv (Num (entry B r c)) (Num (\<Sum>r' \<in> set S. entry B r' c))"
    using True ni by (simp add: col_pass_value_def sm e(1))
  then show ?thesis
    using True nan0_fdiv [OF e(2) [OF True] le] e(2) [OF True] nn'
    by (simp add: col_norm_def)
qed

lemma row_pass_real:
  assumes nn: "nonneg n B" and d: "distinct S" and s: "set S \<subseteq> {..<n}"
    and i2: "set I2 = {..<n} - set S" and rc: "r < n" "c < n"
  shows "nan0 (row_pass_value S I2 B r c) = Num (row_norm (set S) (entry B) r c) \<and>
         0 \<le> row_norm (set S) (entry B) r c"
proof (cases "c \<in> set S")
  case False
  with rc i2 have "c \<in> set I2" by simp
  with False show ?thesis by (simp add: row_pass_value_def row_norm_def nan0_def)
next
  case True
  with i2 have ni: "c \<notin> set I2" by simp
  have e: "B ! r ! c' = Num (entry B r c')" "0 \<le> entry B r c'" if "c' \<in> set S" for c'
    using nonneg_entry [OF nn rc(1), of c'] that s by auto
  have sm: "np_sum (map (\<lambda>c'. B ! r ! c') S) = Num (\<Sum>c' \<in> set S. entry B r c')"
    by (rule np_sum_map_Num_set [OF d]) (rule e(1))
  have le: "entry B r c \<le> (\<Sum>c' \<in> set S. entry B r c')"
    by (rule member_le_sum [OF True]) (simp_all add: e(2))
  have nn': "0 \<le> (\<Sum>c' \<in> set S. entry B r c')"
    by (rule sum_nonneg) (rule e(2))
  have "row_pass_value S I2 B r c = fdiv (Num (entry B r c)) (Num (\<Sum>c' \<in> set S. entry B r c'))"
    using True ni by (simp add: row_pass_value_def sm e(1))
  then show ?thesis
    using True nan0_fdiv [OF e(2) [OF True] le] e(2) [OF True] nn'
    by (simp add: row_norm_def)
qed

lemma scn_iteration_real:
  assumes nn: "nonneg n B" and d: "distinct S" and s: "set S \<subseteq> {..<n}"
    and i2: "set I2 = {..<n} - set S"
  shows "nonneg n (scn_iteration S I2 B) \<and>
         (\<forall>r < n. \<forall>c < n. entry (scn_iteration S I2 B) r c
            = row_norm (set S) (col_norm (set S) (entry B)) r c)"
proof -
  let ?A1 = "map (\<lambda>r. map (\<lambda>c. nan0 (col_pass_value S I2 B r c)) [0..<n]) [0..<n]"
  let ?A2 = "map (\<lambda>r. map (\<lambda>c. nan0 (row_pass_value S I2 ?A1 r c)) [0..<n]) [0..<n]"
  have si2: "set I2 \<subseteq> {..<n}" using i2 by auto
  have it: "scn_iteration S I2 B = ?A2"
    using scn_iteration_entries [OF nonneg_square [OF nn] s si2] by (simp add: Let_def)
  have a1: "?A1 ! r ! c = Num (col_norm (set S) (entry B) r c)"
    "0 \<le> col_norm (set S) (entry B) r c" if "r < n" "c < n" for r c
    using col_pass_real [OF nn d s i2 that] that by simp_all
  have nn1: "nonneg n ?A1"
    unfolding nonneg_def using a1 by (auto simp: square_iff_nth)
  have e1: "entry ?A1 r c = col_norm (set S) (entry B) r c" if "r < n" "c < n" for r c
    using a1(1) [OF that] by (simp add: entry_def)
  have rn: "row_norm (set S) (entry ?A1) r c = row_norm (set S) (col_norm (set S) (entry B)) r c"
    if "r < n" "c < n" for r c
  proof -
    have "(\<Sum>c' \<in> set S. entry ?A1 r c') = (\<Sum>c' \<in> set S. col_norm (set S) (entry B) r c')"
      by (rule sum.cong) (use s that e1 in auto)
    then show ?thesis using that by (simp add: row_norm_def e1)
  qed
  have a2: "?A2 ! r ! c = Num (row_norm (set S) (col_norm (set S) (entry B)) r c)"
    "0 \<le> row_norm (set S) (col_norm (set S) (entry B)) r c" if "r < n" "c < n" for r c
    using row_pass_real [OF nn1 d s i2 that] that rn [OF that] by simp_all
  have "nonneg n ?A2"
    unfolding nonneg_def using a2 by (auto simp: square_iff_nth)
  moreover have "entry ?A2 r c = row_norm (set S) (col_norm (set S) (entry B)) r c"
    if "r < n" "c < n" for r c
    using a2(1) [OF that] by (simp add: entry_def)
  ultimately show ?thesis unfolding it by blast
qed

subsection \<open>One iteration keeps the sums and moves each entry by a bounded factor\<close>

lemma norm_outside:
  "r \<notin> S \<or> c \<notin> S \<Longrightarrow> row_norm S (col_norm S v) r c = 0"
  by (auto simp: row_norm_def col_norm_def)

lemma row_norm_sum:
  "(\<Sum>c \<in> S. row_norm S v r c) = (if (\<Sum>c \<in> S. v r c) = 0 then 0 else 1)"
proof -
  have "(\<Sum>c \<in> S. row_norm S v r c) = (\<Sum>c \<in> S. v r c / (\<Sum>c' \<in> S. v r c'))"
    by (rule sum.cong) (simp_all add: row_norm_def)
  also have "\<dots> = (\<Sum>c \<in> S. v r c) / (\<Sum>c' \<in> S. v r c')"
    by (rule sum_divide_distrib [symmetric])
  finally show ?thesis by simp
qed

lemma div_between:
  fixes x d lo hi :: real
  assumes "0 \<le> x" "0 < lo" "lo \<le> d" "d \<le> hi"
  shows "x / hi \<le> x / d" "x / d \<le> x / lo"
  using assms by (auto intro!: divide_left_mono mult_pos_pos)

lemma near_step:
  fixes v :: "nat \<Rightarrow> nat \<Rightarrow> real"
  assumes fin: "finite S" and e0: "0 \<le> e" and e1: "e < 1"
    and nn: "\<And>r c. r \<in> S \<Longrightarrow> c \<in> S \<Longrightarrow> 0 \<le> v r c"
    and rows: "\<And>r. r \<in> S \<Longrightarrow> (\<Sum>c \<in> S. v r c) = 1"
    and cols: "\<And>c. c \<in> S \<Longrightarrow> \<bar>(\<Sum>r \<in> S. v r c) - 1\<bar> \<le> e"
  shows "\<And>r. r \<in> S \<Longrightarrow> (\<Sum>c \<in> S. row_norm S (col_norm S v) r c) = 1"
    and "\<And>c. c \<in> S \<Longrightarrow> \<bar>(\<Sum>r \<in> S. row_norm S (col_norm S v) r c) - 1\<bar> \<le> e"
    and "\<And>r c. r \<in> S \<Longrightarrow> c \<in> S \<Longrightarrow>
           v r c * ((1 - e) / (1 + e)) \<le> row_norm S (col_norm S v) r c \<and>
           row_norm S (col_norm S v) r c \<le> v r c * ((1 + e) / (1 - e))"
proof -
  define s where "s c = (\<Sum>r \<in> S. v r c)" for c
  define a where "a r c = v r c / s c" for r c
  define p where "p r = (\<Sum>c \<in> S. a r c)" for r
  let ?w = "row_norm S (col_norm S v)"
  have lo: "0 < 1 - e" and hi: "0 < 1 + e" using e0 e1 by simp_all
  have s_bd: "1 - e \<le> s c" "s c \<le> 1 + e" if "c \<in> S" for c
    using cols [OF that] unfolding s_def by linarith+
  have s_pos: "0 < s c" if "c \<in> S" for c
    using s_bd(1) [OF that] lo by linarith
  have a_eq: "col_norm S v r c = a r c" if "r \<in> S" for r c
    using that by (simp add: col_norm_def a_def s_def)
  have a_bd: "v r c / (1 + e) \<le> a r c" "a r c \<le> v r c / (1 - e)"
    if "r \<in> S" "c \<in> S" for r c
    unfolding a_def
    using div_between [OF nn [OF that] lo s_bd(1) [OF that(2)] s_bd(2) [OF that(2)]]
      div_between [OF nn [OF that] s_pos [OF that(2)] order_refl s_bd(2) [OF that(2)]]
    by simp_all
  have p_bd: "1 / (1 + e) \<le> p r" "p r \<le> 1 / (1 - e)" if "r \<in> S" for r
  proof -
    have "(\<Sum>c \<in> S. v r c / (1 + e)) \<le> p r"
      unfolding p_def by (rule sum_mono) (rule a_bd(1) [OF that])
    then show "1 / (1 + e) \<le> p r"
      by (simp add: sum_divide_distrib [symmetric] rows [OF that])
    have "p r \<le> (\<Sum>c \<in> S. v r c / (1 - e))"
      unfolding p_def by (rule sum_mono) (rule a_bd(2) [OF that])
    then show "p r \<le> 1 / (1 - e)"
      by (simp add: sum_divide_distrib [symmetric] rows [OF that])
  qed
  have p_pos: "0 < p r" if "r \<in> S" for r
  proof -
    have "0 < 1 / (1 + e)" using hi by simp
    with p_bd(1) [OF that] show ?thesis by linarith
  qed
  have w_eq: "?w r c = a r c / p r" if "r \<in> S" "c \<in> S" for r c
  proof -
    have "(\<Sum>c' \<in> S. col_norm S v r c') = p r"
      unfolding p_def by (rule sum.cong) (simp_all add: a_eq [OF that(1)])
    then show ?thesis using that by (simp add: row_norm_def a_eq)
  qed
  have ip: "1 - e \<le> 1 / p r" "1 / p r \<le> 1 + e" if "r \<in> S" for r
  proof -
    from p_bd(2) [OF that] p_pos [OF that] lo show "1 - e \<le> 1 / p r"
      by (simp add: field_simps)
    from p_bd(1) [OF that] p_pos [OF that] hi show "1 / p r \<le> 1 + e"
      by (simp add: field_simps)
  qed
  show "(\<Sum>c \<in> S. ?w r c) = 1" if "r \<in> S" for r
  proof -
    have "(\<Sum>c \<in> S. ?w r c) = (\<Sum>c \<in> S. a r c / p r)"
      by (rule sum.cong) (simp_all add: w_eq [OF that])
    also have "\<dots> = p r / p r"
      by (simp add: sum_divide_distrib [symmetric] p_def)
    finally show ?thesis using p_pos [OF that] by simp
  qed
  show "\<bar>(\<Sum>r \<in> S. ?w r c) - 1\<bar> \<le> e" if "c \<in> S" for c
  proof -
    have "(\<Sum>r \<in> S. ?w r c) = (\<Sum>r \<in> S. (v r c * (1 / p r)) / s c)"
      by (rule sum.cong) (simp_all add: w_eq [OF _ that] a_def)
    also have "\<dots> = (\<Sum>r \<in> S. v r c * (1 / p r)) / s c"
      by (rule sum_divide_distrib [symmetric])
    finally have w: "(\<Sum>r \<in> S. ?w r c) = (\<Sum>r \<in> S. v r c * (1 / p r)) / s c" .
    have "(\<Sum>r \<in> S. v r c * (1 - e)) \<le> (\<Sum>r \<in> S. v r c * (1 / p r))"
      by (rule sum_mono) (rule mult_left_mono [OF ip(1) nn [OF _ that]])
    then have l: "s c * (1 - e) \<le> (\<Sum>r \<in> S. v r c * (1 / p r))"
      by (simp add: sum_distrib_right [symmetric] s_def)
    have "(\<Sum>r \<in> S. v r c * (1 / p r)) \<le> (\<Sum>r \<in> S. v r c * (1 + e))"
      by (rule sum_mono) (rule mult_left_mono [OF ip(2) nn [OF _ that]])
    then have u: "(\<Sum>r \<in> S. v r c * (1 / p r)) \<le> s c * (1 + e)"
      by (simp add: sum_distrib_right [symmetric] s_def)
    from l u s_pos [OF that] have "1 - e \<le> (\<Sum>r \<in> S. v r c * (1 / p r)) / s c"
      "(\<Sum>r \<in> S. v r c * (1 / p r)) / s c \<le> 1 + e"
      by (simp_all add: field_simps)
    then show ?thesis unfolding w by linarith
  qed
  show "v r c * ((1 - e) / (1 + e)) \<le> ?w r c \<and> ?w r c \<le> v r c * ((1 + e) / (1 - e))"
    if "r \<in> S" "c \<in> S" for r c
  proof -
    have w: "?w r c = a r c * (1 / p r)" using w_eq [OF that] by simp
    have a0: "0 \<le> a r c"
      unfolding a_def using nn [OF that] s_pos [OF that(2)] by simp
    have "v r c / (1 + e) * (1 - e) \<le> a r c * (1 / p r)"
      by (rule mult_mono [OF a_bd(1) [OF that] ip(1) [OF that(1)] a0]) (use lo in simp)
    moreover have "a r c * (1 / p r) \<le> v r c / (1 - e) * (1 + e)"
      by (rule mult_mono [OF a_bd(2) [OF that] ip(2) [OF that(1)]])
        (use nn [OF that] lo p_pos [OF that(1)] in simp_all)
    ultimately show ?thesis unfolding w by (simp add: field_simps)
  qed
qed

lemma rel_bound:
  fixes x y e :: real
  assumes e: "0 \<le> e" "e < 1" and x: "0 \<le> x"
    and l: "x * ((1 - e) / (1 + e)) ^ k \<le> y" and u: "y \<le> x * ((1 + e) / (1 - e)) ^ k"
  shows "\<bar>y - x\<bar> \<le> (((1 + e) / (1 - e)) ^ k - 1) * x"
proof -
  define Q where "Q = ((1 + e) / (1 - e)) ^ k"
  define P where "P = ((1 - e) / (1 + e)) ^ k"
  have "((1 - e) / (1 + e)) * ((1 + e) / (1 - e)) = 1" using e by simp
  then have "(((1 - e) / (1 + e)) * ((1 + e) / (1 - e))) ^ k = 1" by simp
  then have pq: "P * Q = 1" unfolding P_def Q_def by (simp only: power_mult_distrib)
  have Ppos: "0 < P" unfolding P_def using e by simp
  have "0 \<le> (Q - 1)\<^sup>2" by simp
  then have "2 * Q \<le> Q * Q + 1" by (simp add: power2_eq_square algebra_simps)
  then have "(2 * Q) * P \<le> (Q * Q + 1) * P" using Ppos by (simp add: mult_right_mono)
  moreover have "(2 * Q) * P = 2" using pq by (simp add: mult.commute)
  moreover have "(Q * Q + 1) * P = Q + P"
  proof -
    have "(Q * Q + 1) * P = Q * (P * Q) + P" by (simp add: algebra_simps)
    then show ?thesis by (simp add: pq)
  qed
  ultimately have "1 - P \<le> Q - 1" by simp
  then have "x * (1 - P) \<le> x * (Q - 1)" by (rule mult_left_mono) (rule x)
  moreover have "x - y \<le> x * (1 - P)" using l by (simp add: algebra_simps P_def)
  moreover have "y - x \<le> x * (Q - 1)" using u by (simp add: algebra_simps Q_def)
  ultimately have "\<bar>y - x\<bar> \<le> x * (Q - 1)" by linarith
  then show ?thesis unfolding Q_def by (simp add: mult.commute)
qed

subsection \<open>The iterations of a run\<close>

lemma scn_iteration_balanced:
  assumes b: "balanced n (set S) e B" and d: "distinct S" and s: "set S \<subseteq> {..<n}"
    and i2: "set I2 = {..<n} - set S" and e: "0 \<le> e" "e < 1"
  shows "balanced n (set S) e (scn_iteration S I2 B)"
    and "\<And>r c. r < n \<Longrightarrow> c < n \<Longrightarrow>
      entry B r c * ((1 - e) / (1 + e)) \<le> entry (scn_iteration S I2 B) r c \<and>
      entry (scn_iteration S I2 B) r c \<le> entry B r c * ((1 + e) / (1 - e))"
proof -
  let ?C = "scn_iteration S I2 B"
  let ?w = "row_norm (set S) (col_norm (set S) (entry B))"
  from b have nn: "nonneg n B" by (simp add: balanced_def)
  from b have z: "entry B r c = 0" if "r < n" "c < n" "r \<notin> set S \<or> c \<notin> set S" for r c
    using that unfolding balanced_def by blast
  from b have rows: "(\<Sum>c \<in> set S. entry B r c) = 1" if "r \<in> set S" for r
    using that unfolding balanced_def by blast
  from b have cols: "\<bar>(\<Sum>r \<in> set S. entry B r c) - 1\<bar> \<le> e" if "c \<in> set S" for c
    using that unfolding balanced_def by blast
  have lt: "i < n" if "i \<in> set S" for i using s that by auto
  have pos: "0 \<le> entry B r c" if "r \<in> set S" "c \<in> set S" for r c
    using nonneg_entry [OF nn lt [OF that(1)] lt [OF that(2)]] by simp
  from scn_iteration_real [OF nn d s i2]
  have nnC: "nonneg n ?C" by blast
  from scn_iteration_real [OF nn d s i2]
  have eq: "entry ?C r c = ?w r c" if "r < n" "c < n" for r c
    using that by blast
  have fin: "finite (set S)" by simp
  have w_rows: "(\<Sum>c \<in> set S. ?w r c) = 1" if "r \<in> set S" for r
    using near_step(1) [where S = "set S" and e = e and v = "entry B", OF fin e pos rows cols that] .
  have w_cols: "\<bar>(\<Sum>r \<in> set S. ?w r c) - 1\<bar> \<le> e" if "c \<in> set S" for c
    using near_step(2) [where S = "set S" and e = e and v = "entry B", OF fin e pos rows cols that] .
  have w_bd: "entry B r c * ((1 - e) / (1 + e)) \<le> ?w r c \<and>
      ?w r c \<le> entry B r c * ((1 + e) / (1 - e))" if "r \<in> set S" "c \<in> set S" for r c
    using near_step(3) [where S = "set S" and e = e and v = "entry B", OF fin e pos rows cols that] .
  have C_rows: "(\<Sum>c \<in> set S. entry ?C r c) = 1" if "r \<in> set S" for r
  proof -
    have "(\<Sum>c \<in> set S. entry ?C r c) = (\<Sum>c \<in> set S. ?w r c)"
      by (rule sum.cong) (simp_all add: eq lt that)
    then show ?thesis by (simp add: w_rows [OF that])
  qed
  have C_cols: "\<bar>(\<Sum>r \<in> set S. entry ?C r c) - 1\<bar> \<le> e" if "c \<in> set S" for c
  proof -
    have "(\<Sum>r \<in> set S. entry ?C r c) = (\<Sum>r \<in> set S. ?w r c)"
      by (rule sum.cong) (simp_all add: eq lt that)
    then show ?thesis by (simp add: w_cols [OF that])
  qed
  have C_z: "entry ?C r c = 0" if "r < n" "c < n" "r \<notin> set S \<or> c \<notin> set S" for r c
    using eq [OF that(1,2)] norm_outside [OF that(3)] by simp
  show "balanced n (set S) e ?C"
    unfolding balanced_def using nnC C_z C_rows C_cols by blast
  show "entry B r c * ((1 - e) / (1 + e)) \<le> entry ?C r c \<and>
      entry ?C r c \<le> entry B r c * ((1 + e) / (1 - e))" if rc: "r < n" "c < n" for r c
  proof (cases "r \<in> set S \<and> c \<in> set S")
    case True
    then show ?thesis using w_bd [of r c] eq [OF rc] by simp
  next
    case False
    then have "r \<notin> set S \<or> c \<notin> set S" by simp
    from z [OF rc this] C_z [OF rc this] show ?thesis by simp
  qed
qed

lemma scn_iterations_balanced:
  assumes d: "distinct S" and s: "set S \<subseteq> {..<n}"
    and i2: "set I2 = {..<n} - set S" and e: "0 \<le> e" "e < 1"
  shows "balanced n (set S) e B \<Longrightarrow>
    balanced n (set S) e (foldl (\<lambda>B _. scn_iteration S I2 B) B xs) \<and>
    (\<forall>r < n. \<forall>c < n.
       entry B r c * ((1 - e) / (1 + e)) ^ length xs
         \<le> entry (foldl (\<lambda>B _. scn_iteration S I2 B) B xs) r c \<and>
       entry (foldl (\<lambda>B _. scn_iteration S I2 B) B xs) r c
         \<le> entry B r c * ((1 + e) / (1 - e)) ^ length xs)"
proof (induction xs arbitrary: B)
  case Nil
  then show ?case by simp
next
  case (Cons x xs)
  let ?C = "scn_iteration S I2 B"
  let ?R = "foldl (\<lambda>B _. scn_iteration S I2 B) ?C xs"
  let ?p = "(1 - e) / (1 + e)"
  let ?q = "(1 + e) / (1 - e)"
  note st = scn_iteration_balanced [OF Cons.prems d s i2 e]
  from Cons.IH [OF st(1)] have bal: "balanced n (set S) e ?R" by blast
  from Cons.IH [OF st(1)] have bd: "entry ?C r c * ?p ^ length xs \<le> entry ?R r c \<and>
      entry ?R r c \<le> entry ?C r c * ?q ^ length xs" if "r < n" "c < n" for r c
    using that by blast
  have p0: "0 \<le> ?p ^ length xs" and q0: "0 \<le> ?q ^ length xs" using e by simp_all
  have lower: "entry B r c * ?p ^ length (x # xs) \<le> entry ?R r c" if rc: "r < n" "c < n" for r c
  proof -
    have "entry B r c * ?p ^ length (x # xs) = (entry B r c * ?p) * ?p ^ length xs" by simp
    also have "\<dots> \<le> entry ?C r c * ?p ^ length xs"
      by (rule mult_right_mono [OF _ p0]) (use st(2) [OF rc] in blast)
    also have "\<dots> \<le> entry ?R r c" using bd [OF rc] by blast
    finally show ?thesis .
  qed
  have upper: "entry ?R r c \<le> entry B r c * ?q ^ length (x # xs)" if rc: "r < n" "c < n" for r c
  proof -
    have "entry ?R r c \<le> entry ?C r c * ?q ^ length xs" using bd [OF rc] by blast
    also have "\<dots> \<le> (entry B r c * ?q) * ?q ^ length xs"
      by (rule mult_right_mono [OF _ q0]) (use st(2) [OF rc] in blast)
    also have "\<dots> = entry B r c * ?q ^ length (x # xs)" by simp
    finally show ?thesis .
  qed
  have f: "foldl (\<lambda>B _. scn_iteration S I2 B) B (x # xs) = ?R" by simp
  show ?case unfolding f using bal lower upper by blast
qed

lemma nonneg_scn_iterations:
  assumes d: "distinct S" and s: "set S \<subseteq> {..<n}" and i2: "set I2 = {..<n} - set S"
  shows "nonneg n B \<Longrightarrow> nonneg n (foldl (\<lambda>B _. scn_iteration S I2 B) B xs)"
proof (induction xs arbitrary: B)
  case Nil
  then show ?case by simp
next
  case (Cons x xs)
  from scn_iteration_real [OF Cons.prems d s i2] have "nonneg n (scn_iteration S I2 B)" by blast
  from Cons.IH [OF this] show ?case by simp
qed

lemma active_indices:
  "distinct (filter P [0..<n])" "set (filter P [0..<n]) \<subseteq> {..<n}"
  "set (filter (\<lambda>i. \<not> P i) [0..<n]) = {..<n} - set (filter P [0..<n])"
  by auto

lemma row_sum_entries:
  assumes nn: "nonneg n M" and r: "r < n"
  shows "np_sum (M ! r) = Num (\<Sum>c < n. entry M r c)"
proof -
  from nn r have len: "length (M ! r) = n" by (simp add: nonneg_def square_iff_nth)
  have "M ! r = map (\<lambda>c. M ! r ! c) [0..<n]"
    using map_nth [of "M ! r"] len by simp
  moreover have "np_sum (map (\<lambda>c. M ! r ! c) [0..<n]) = Num (sum (entry M r) (set [0..<n]))"
    by (rule np_sum_map_Num_set) (use nonneg_entry [OF nn r] in simp_all)
  ultimately show ?thesis by (simp add: atLeast0LessThan)
qed

lemma col_sum_entries:
  assumes nn: "nonneg n M" and c: "c < n"
  shows "np_sum (map (\<lambda>r. r ! c) M) = Num (\<Sum>r < n. entry M r c)"
proof -
  from nn have len: "length M = n" by (simp add: nonneg_def square_def)
  have "map (\<lambda>r. r ! c) M = map (\<lambda>r. r ! c) (map (\<lambda>r. M ! r) [0..<n])"
    using map_nth [of M] len by simp
  then have "map (\<lambda>r. r ! c) M = map (\<lambda>r. M ! r ! c) [0..<n]" by (simp add: comp_def)
  moreover have "np_sum (map (\<lambda>r. M ! r ! c) [0..<n]) = Num (sum (\<lambda>r. entry M r c) (set [0..<n]))"
    by (rule np_sum_map_Num_set) (use nonneg_entry [OF nn _ c] in simp_all)
  ultimately show ?thesis by (simp add: atLeast0LessThan)
qed

lemma scn_func_last_iteration:
  "scn_func A t =
     scn_iteration (filter (scn_active A t) [0..<length A])
       (filter (\<lambda>i. \<not> scn_active A t i) [0..<length A])
       (foldl (\<lambda>B _. scn_iteration (filter (scn_active A t) [0..<length A])
                       (filter (\<lambda>i. \<not> scn_active A t i) [0..<length A]) B) A [0..<9])"
proof -
  have "[0..<n_iterations] = [0..<Suc 9]" by (simp add: n_iterations_def)
  also have "\<dots> = [0..<9] @ [9]" by (rule upt_Suc_append) simp
  finally show ?thesis unfolding scn_func_iterations by (simp only: foldl_append foldl.simps)
qed

lemma run_output_balanced:
  assumes nn: "nonneg n A" and e: "e < 1"
    and stable: "\<forall>i < n. scn_active (scn_func A t) t i \<longleftrightarrow> scn_active A t i"
    and near: "\<forall>i < n. scn_active (scn_func A t) t i \<longrightarrow>
        near_one e (np_sum (scn_func A t ! i)) \<and>
        near_one e (np_sum (map (\<lambda>r. r ! i) (scn_func A t)))"
  shows "balanced n (set (filter (scn_active A t) [0..<n])) e (scn_func A t)"
proof -
  let ?S = "filter (scn_active A t) [0..<n]"
  let ?I = "filter (\<lambda>i. \<not> scn_active A t i) [0..<n]"
  let ?B = "foldl (\<lambda>B _. scn_iteration ?S ?I B) A [0..<9]"
  let ?M = "scn_func A t"
  let ?w = "row_norm (set ?S) (col_norm (set ?S) (entry ?B))"
  from nn have len: "length A = n" by (simp add: nonneg_def square_def)
  have M: "?M = scn_iteration ?S ?I ?B"
    using scn_func_last_iteration [of A t] unfolding len .
  have nnB: "nonneg n ?B" by (rule nonneg_scn_iterations [OF active_indices nn])
  from scn_iteration_real [OF nnB active_indices] have nnM: "nonneg n ?M"
    unfolding M by blast
  from scn_iteration_real [OF nnB active_indices]
  have eq: "entry ?M r c = ?w r c" if "r < n" "c < n" for r c
    unfolding M using that by blast
  have lt: "i < n" if "i \<in> set ?S" for i using that by simp
  have act: "scn_active ?M t i" if "i \<in> set ?S" for i
    using that stable by simp
  have z: "entry ?M r c = 0" if "r < n" "c < n" "r \<notin> set ?S \<or> c \<notin> set ?S" for r c
    using eq [OF that(1,2)] norm_outside [OF that(3)] by simp
  have rows: "(\<Sum>c \<in> set ?S. entry ?M r c) = 1" if r: "r \<in> set ?S" for r
  proof -
    have full: "(\<Sum>c < n. entry ?M r c) = (\<Sum>c \<in> set ?S. entry ?M r c)"
      by (rule sum.mono_neutral_right) (use z [OF lt [OF r]] in auto)
    have "(\<Sum>c \<in> set ?S. entry ?M r c) = (\<Sum>c \<in> set ?S. ?w r c)"
      by (rule sum.cong) (simp_all add: eq lt [OF r])
    then have 01: "(\<Sum>c \<in> set ?S. entry ?M r c) = 0 \<or> (\<Sum>c \<in> set ?S. entry ?M r c) = 1"
      by (simp add: row_norm_sum)
    from near lt [OF r] act [OF r] have "near_one e (np_sum (?M ! r))" by blast
    then have "\<bar>(\<Sum>c \<in> set ?S. entry ?M r c) - 1\<bar> \<le> e"
      unfolding near_one_def row_sum_entries [OF nnM lt [OF r]] full by simp
    with e 01 show ?thesis by auto
  qed
  have cols: "\<bar>(\<Sum>r \<in> set ?S. entry ?M r c) - 1\<bar> \<le> e" if c: "c \<in> set ?S" for c
  proof -
    have full: "(\<Sum>r < n. entry ?M r c) = (\<Sum>r \<in> set ?S. entry ?M r c)"
      by (rule sum.mono_neutral_right) (use z [OF _ lt [OF c]] in auto)
    from near lt [OF c] act [OF c] have "near_one e (np_sum (map (\<lambda>r. r ! c) ?M))" by blast
    then show ?thesis
      unfolding near_one_def col_sum_entries [OF nnM lt [OF c]] full by simp
  qed
  show ?thesis unfolding balanced_def using nnM z rows cols by blast
qed

text \<open>
  C9, amended. Let \<open>A\<close> be a square array of non-negative numbers and \<open>M\<close> the result of
  a completed run of \<^verbatim>\<open>scn_func\<close> on \<open>A\<close> with threshold \<open>t\<close>. If the run has left the
  active rows as they were (a row of \<open>M\<close> is above the threshold exactly when the row of
  \<open>A\<close> was) and has brought every active row sum and column sum of \<open>M\<close> within \<open>e < 1\<close>
  of 1, then a second run with the same threshold changes every entry \<open>x\<close> of \<open>M\<close>, a
  number between 0 and 1, by at most \<open>(((1 + e) / (1 - e)) ^ 10 - 1) * x\<close>: the nearer the
  first run got, the less the second run moves.
\<close>

theorem scn_func_rerun_close:
  assumes nn: "nonneg n A" and e: "0 \<le> e" "e < 1"
    and stable: "\<forall>i < n. scn_active (scn_func A t) t i \<longleftrightarrow> scn_active A t i"
    and near: "\<forall>i < n. scn_active (scn_func A t) t i \<longrightarrow>
        near_one e (np_sum (scn_func A t ! i)) \<and>
        near_one e (np_sum (map (\<lambda>r. r ! i) (scn_func A t)))"
  shows "\<forall>r < n. \<forall>c < n. \<exists>x y.
        scn_func A t ! r ! c = Num x \<and> scn_func (scn_func A t) t ! r ! c = Num y \<and>
        0 \<le> x \<and> x \<le> 1 \<and>
        \<bar>y - x\<bar> \<le> (((1 + e) / (1 - e)) ^ n_iterations - 1) * x"
proof (intro allI impI)
  fix r c assume rc: "r < n" "c < n"
  let ?S = "filter (scn_active A t) [0..<n]"
  let ?I = "filter (\<lambda>i. \<not> scn_active A t i) [0..<n]"
  let ?M = "scn_func A t"
  let ?R = "scn_func ?M t"
  note bal = run_output_balanced [OF nn e(2) stable near]
  then have nnM: "nonneg n ?M" by (simp add: balanced_def)
  then have len: "length ?M = n" by (simp add: nonneg_def square_def)
  have S: "filter (scn_active ?M t) [0..<n] = ?S"
    by (rule filter_cong) (use stable in simp_all)
  have I: "filter (\<lambda>i. \<not> scn_active ?M t i) [0..<n] = ?I"
    by (rule filter_cong) (use stable in simp_all)
  have R: "?R = foldl (\<lambda>B _. scn_iteration ?S ?I B) ?M [0..<n_iterations]"
    using scn_func_iterations [of ?M t] unfolding len S I .
  from scn_iterations_balanced [OF active_indices e bal, of "[0..<n_iterations]"]
  have balR: "balanced n (set ?S) e ?R"
    and bd: "entry ?M r c * ((1 - e) / (1 + e)) ^ n_iterations \<le> entry ?R r c"
      "entry ?R r c \<le> entry ?M r c * ((1 + e) / (1 - e)) ^ n_iterations"
    unfolding R [symmetric] using rc by simp_all
  from balR have nnR: "nonneg n ?R" by (simp add: balanced_def)
  note x = nonneg_entry [OF nnM rc]
  note y = nonneg_entry [OF nnR rc]
  have x1: "entry ?M r c \<le> 1"
  proof (cases "r \<in> set ?S \<and> c \<in> set ?S")
    case True
    have "entry ?M r c \<le> (\<Sum>c' \<in> set ?S. entry ?M r c')"
      by (rule member_le_sum) (use True nonneg_entry [OF nnM rc(1)] in auto)
    moreover from bal True have "(\<Sum>c' \<in> set ?S. entry ?M r c') = 1"
      unfolding balanced_def by blast
    ultimately show ?thesis by simp
  next
    case False
    with bal rc have "entry ?M r c = 0" unfolding balanced_def by blast
    then show ?thesis by simp
  qed
  from x have x0: "0 \<le> entry ?M r c" by simp
  note rb = rel_bound [OF e x0 bd]
  from x y x1 rb show "\<exists>x y. ?M ! r ! c = Num x \<and> ?R ! r ! c = Num y \<and>
        0 \<le> x \<and> x \<le> 1 \<and>
        \<bar>y - x\<bar> \<le> (((1 + e) / (1 - e)) ^ n_iterations - 1) * x"
    by blast
qed


lemma near_oneI: "s = Num x \<Longrightarrow> \<bar>x - 1\<bar> \<le> e \<Longrightarrow> near_one e s"
  unfolding near_one_def by blast

theorem scn_func_rerun_close_witness:
  "nonneg 2 [[Num 1, Num 1], [Num 0, Num 1]] \<and>
   scn_func [[Num 1, Num 1], [Num 0, Num 1]] (Num 0)
     = [[Num (20 / 21), Num (1 / 21)], [Num 0, Num 1]] \<and>
   scn_active [[Num 1, Num 1], [Num 0, Num 1]] (Num 0) 0 \<and>
   scn_active [[Num 1, Num 1], [Num 0, Num 1]] (Num 0) 1 \<and>
   scn_active (scn_func [[Num 1, Num 1], [Num 0, Num 1]] (Num 0)) (Num 0) 0 \<and>
   scn_active (scn_func [[Num 1, Num 1], [Num 0, Num 1]] (Num 0)) (Num 0) 1 \<and>
   near_one (1 / 21) (np_sum (scn_func [[Num 1, Num 1], [Num 0, Num 1]] (Num 0) ! 0)) \<and>
   near_one (1 / 21) (np_sum (scn_func [[Num 1, Num 1], [Num 0, Num 1]] (Num 0) ! 1)) \<and>
   near_one (1 / 21)
     (np_sum (map (\<lambda>r. r ! 0) (scn_func [[Num 1, Num 1], [Num 0, Num 1]] (Num 0)))) \<and>
   near_one (1 / 21)
     (np_sum (map (\<lambda>r. r ! 1) (scn_func [[Num 1, Num 1], [Num 0, Num 1]] (Num 0)))) \<and>
   (\<exists>x y. scn_func [[Num 1, Num 1], [Num 0, Num 1]] (Num 0) ! 0 ! 1 = Num x \<and>
      scn_func (scn_func [[Num 1, Num 1], [Num 0, Num 1]] (Num 0)) (Num 0) ! 0 ! 1 = Num y \<and>
      0 \<le> x \<and> x \<le> 1 \<and>
      \<bar>y - x\<bar> \<le> (((1 + 1 / 21) / (1 - 1 / 21)) ^ n_iterations - 1) * x)"
proof -
  let ?A = "[[Num 1, Num 1], [Num 0, Num 1]]"
  let ?M = "[[Num (20 / 21), Num (1 / 21)], [Num 0, Num 1]]"
  have M: "scn_func ?A (Num 0) = ?M" using scn_func_slow_convergence by blast
  have l: "i = 0 \<or> i = Suc 0" if "i < 2" for i :: nat using that by auto
  have nn: "nonneg 2 ?A"
    unfolding nonneg_def
  proof (intro conjI allI impI)
    show "square 2 ?A" by (simp add: square_def)
    fix r c :: nat assume "r < 2" "c < 2"
    with l [of r] l [of c] show "\<exists>x\<ge>0. ?A ! r ! c = Num x" by auto
  qed
  have a: "scn_active ?A (Num 0) 0" "scn_active ?A (Num 0) (Suc 0)"
    "scn_active ?M (Num 0) 0" "scn_active ?M (Num 0) (Suc 0)"
    by (simp_all add: scn_active_def np_sum_def fgt_def)
  have s: "near_one (1 / 21) (np_sum (?M ! 0))" "near_one (1 / 21) (np_sum (?M ! Suc 0))"
    "near_one (1 / 21) (np_sum (map (\<lambda>r. r ! 0) ?M))"
    "near_one (1 / 21) (np_sum (map (\<lambda>r. r ! Suc 0) ?M))"
  proof -
    show "near_one (1 / 21) (np_sum (?M ! 0))"
      by (rule near_oneI [of _ 1]) (simp_all add: np_sum_def)
    show "near_one (1 / 21) (np_sum (?M ! Suc 0))"
      by (rule near_oneI [of _ 1]) (simp_all add: np_sum_def)
    show "near_one (1 / 21) (np_sum (map (\<lambda>r. r ! 0) ?M))"
      by (rule near_oneI [of _ "20 / 21"]) (simp_all add: np_sum_def)
    show "near_one (1 / 21) (np_sum (map (\<lambda>r. r ! Suc 0) ?M))"
      by (rule near_oneI [of _ "22 / 21"]) (simp_all add: np_sum_def)
  qed
  have stable: "\<forall>i < 2. scn_active (scn_func ?A (Num 0)) (Num 0) i \<longleftrightarrow> scn_active ?A (Num 0) i"
    unfolding M using a l by blast
  have near: "\<forall>i < 2. scn_active (scn_func ?A (Num 0)) (Num 0) i \<longrightarrow>
        near_one (1 / 21) (np_sum (scn_func ?A (Num 0) ! i)) \<and>
        near_one (1 / 21) (np_sum (map (\<lambda>r. r ! i) (scn_func ?A (Num 0))))"
    unfolding M using s l by blast
  have e: "0 \<le> (1 / 21 :: real)" "(1 / 21 :: real) < 1" by simp_all
  from scn_func_rerun_close [OF nn e stable near]
  have "\<exists>x y. scn_func ?A (Num 0) ! 0 ! 1 = Num x \<and>
      scn_func (scn_func ?A (Num 0)) (Num 0) ! 0 ! 1 = Num y \<and>
      0 \<le> x \<and> x \<le> 1 \<and>
      \<bar>y - x\<bar> \<le> (((1 + 1 / 21) / (1 - 1 / 21)) ^ n_iterations - 1) * x"
    by simp
  with nn M a s show ?thesis by simp
qed


end
